theory Spec2Isabelle
  imports Complex_Main "HOL-Library.AList"
begin

section \<open>JavaScript values and objects\<close>

text \<open>
  Event payloads are plain JavaScript objects. An object is an association list from
  property names to values, in insertion order; numbers are rationals (pixel
  coordinates, key codes and scroll amounts are integers, timestamps in seconds are not).
\<close>

datatype jsval =
    JNum rat
  | JStr string
  | JBool bool
  | JNull
  | JObj "(string \<times> jsval) list"
  | JArr "jsval list"

type_synonym jsobject = "(string \<times> jsval) list"

text \<open>
  Object spread \<^verbatim>\<open>{...a, ...b}\<close>: the properties of \<open>a\<close> in their order, each
  overwritten in place by \<open>b\<close>'s value when \<open>b\<close> has the same name, followed by the
  properties only \<open>b\<close> has.
\<close>

definition spread :: "jsobject \<Rightarrow> jsobject \<Rightarrow> jsobject" where
  "spread a b = fold (\<lambda>(k, v). AList.update k v) b a"

section \<open>Event slots (main.js, lines 21--27 and 827--925)\<close>

text \<open>
  \<^verbatim>\<open>captureScreenshot\<close> resolves to an object with the flattened \<^verbatim>\<open>screenPaths\<close>
  and \<^verbatim>\<open>appWindowPath\<close>, or to \<^verbatim>\<open>null\<close> when the capture failed.
\<close>

record capture_result =
  screenPaths :: "string list"
  appWindowPath :: "string option"

record screenshots =
  s_displays :: "string list"
  s_appWindow :: "string option"

text \<open>
  An event object. \<^verbatim>\<open>createEventSlot\<close> builds
  \<^verbatim>\<open>{id, type, timestamp, absoluteTimestamp, _pending: true, ...basicData}\<close> and
  \<^verbatim>\<open>completeEvent\<close> builds \<^verbatim>\<open>{...eventSlot, ...completeData, _pending: false}\<close> plus
  \<^verbatim>\<open>screenshots\<close>. At all five call sites the keys of \<^verbatim>\<open>basicData\<close> and
  \<^verbatim>\<open>completeData\<close> are different from \<^verbatim>\<open>id\<close>, \<^verbatim>\<open>type\<close>, \<^verbatim>\<open>timestamp\<close>,
  \<^verbatim>\<open>absoluteTimestamp\<close>, \<^verbatim>\<open>_pending\<close> and \<^verbatim>\<open>screenshots\<close>, so these six are
  record fields and every other property lives in \<open>ev_fields\<close>.
  The finalized event is the slot with \<^verbatim>\<open>_pending\<close> deleted.
\<close>

record final_event =
  ev_id :: int
  ev_type :: string
  ev_timestamp :: rat
  ev_absoluteTimestamp :: int
  ev_fields :: jsobject
  ev_screenshots :: "screenshots option"

record event_slot = final_event +
  ev_pending :: bool

definition delete_pending :: "event_slot \<Rightarrow> final_event" where
  "delete_pending event =
     \<lparr>ev_id = ev_id event, ev_type = ev_type event, ev_timestamp = ev_timestamp event,
      ev_absoluteTimestamp = ev_absoluteTimestamp event, ev_fields = ev_fields event,
      ev_screenshots = ev_screenshots event\<rparr>"

text \<open>
  The module-level state of the slot system: \<^verbatim>\<open>eventCounter\<close>, the \<^verbatim>\<open>Map\<close>
  \<^verbatim>\<open>eventSlots\<close> (insertion-ordered, so an association list maintained with
  \<open>AList.update\<close> and \<open>AList.delete\<close>), \<^verbatim>\<open>maxCompletedEventId\<close> and the ordered
  log \<^verbatim>\<open>sessionData.events\<close>.
\<close>

record registry =
  eventCounter :: int
  eventSlots :: "(int \<times> event_slot) list"
  maxCompletedEventId :: int
  events :: "final_event list"

text \<open>
  \<^verbatim>\<open>createEventSlot(eventType, basicData)\<close>; the two clock readings
  (\<^verbatim>\<open>getVideoTimestamp()\<close>, \<^verbatim>\<open>Date.now()\<close>) are arguments. Returns the id.
\<close>

definition createEventSlot ::
  "string \<Rightarrow> jsobject \<Rightarrow> rat \<Rightarrow> int \<Rightarrow> registry \<Rightarrow> int \<times> registry" where
  "createEventSlot eventType basicData timestamp absoluteTimestamp s =
     (let eventId = eventCounter s;
          eventSlot = \<lparr>ev_id = eventId, ev_type = eventType, ev_timestamp = timestamp,
                       ev_absoluteTimestamp = absoluteTimestamp, ev_fields = basicData,
                       ev_screenshots = None, ev_pending = True\<rparr>
      in (eventId, s\<lparr>eventCounter := eventId + 1,
                      eventSlots := AList.update eventId eventSlot (eventSlots s)\<rparr>))"

text \<open>Deleting a key that is present shortens the association list.\<close>

lemma length_delete_le: "length (AList.delete k xs) \<le> length xs"
  by (simp add: AList.delete_eq)

lemma length_delete_less:
  "map_of xs k = Some v \<Longrightarrow> length (AList.delete k xs) < length xs"
  using length_delete_le [of k]
  by (induction xs) (auto simp: less_Suc_eq_le split: if_splits)

text \<open>
  \<^verbatim>\<open>finalizeCompletedEvents\<close>: the \<^verbatim>\<open>while (eventSlots.has(nextEventId))\<close> loop.
  Every iteration that continues deletes an entry of the map.
\<close>

function finalize_loop :: "int \<Rightarrow> registry \<Rightarrow> registry" where
  "finalize_loop nextEventId s =
     (case map_of (eventSlots s) nextEventId of
        None \<Rightarrow> s
      | Some event \<Rightarrow>
          if ev_pending event then s
          else finalize_loop (nextEventId + 1)
                 (s\<lparr>events := events s @ [delete_pending event],
                    eventSlots := AList.delete nextEventId (eventSlots s),
                    maxCompletedEventId := nextEventId\<rparr>))"
  by pat_completeness auto

termination
  by (relation "measure (\<lambda>(n, s). length (eventSlots s))")
     (auto simp: length_delete_less)

declare finalize_loop.simps [simp del]

definition finalizeCompletedEvents :: "registry \<Rightarrow> registry" where
  "finalizeCompletedEvents s = finalize_loop (maxCompletedEventId s + 1) s"

text \<open>
  \<^verbatim>\<open>completeEvent(eventId, completeData)\<close> is an async function. Its first segment
  looks the slot up and returns with \<^verbatim>\<open>console.error\<close> when it is missing; then it
  awaits the render delay and the screenshot capture; its second segment merges the
  slot \<^emph>\<open>read in the first segment\<close> with \<^verbatim>\<open>completeData\<close>, stores it and
  finalizes. Other callbacks run between the two segments.
\<close>

datatype complete_error = SlotNotFound int

definition completeEvent_begin :: "int \<Rightarrow> registry \<Rightarrow> complete_error + event_slot" where
  "completeEvent_begin eventId s =
     (case map_of (eventSlots s) eventId of
        None \<Rightarrow> Inl (SlotNotFound eventId)
      | Some eventSlot \<Rightarrow> Inr eventSlot)"

definition completeEvent_finish ::
  "int \<Rightarrow> event_slot \<Rightarrow> jsobject \<Rightarrow> capture_result option \<Rightarrow> registry \<Rightarrow> registry" where
  "completeEvent_finish eventId eventSlot completeData shots s =
     (let merged = eventSlot\<lparr>ev_fields := spread (ev_fields eventSlot) completeData,
                             ev_pending := False\<rparr>;
          completeEvent =
            (case shots of
               None \<Rightarrow> merged
             | Some r \<Rightarrow> merged\<lparr>ev_screenshots :=
                           Some \<lparr>s_displays = screenPaths r, s_appWindow = appWindowPath r\<rparr>\<rparr>)
      in finalizeCompletedEvents
           (s\<lparr>eventSlots := AList.update eventId completeEvent (eventSlots s)\<rparr>))"

text \<open>
  The object the second segment stores, by itself: the slot read in the first segment,
  overwritten by \<^verbatim>\<open>completeData\<close>, with \<^verbatim>\<open>_pending: false\<close> and, when the capture
  succeeded, the screenshot paths.
\<close>

definition completed_event ::
  "event_slot \<Rightarrow> jsobject \<Rightarrow> capture_result option \<Rightarrow> event_slot" where
  "completed_event eventSlot completeData shots =
     (let merged = eventSlot\<lparr>ev_fields := spread (ev_fields eventSlot) completeData,
                             ev_pending := False\<rparr>
      in case shots of
           None \<Rightarrow> merged
         | Some r \<Rightarrow> merged\<lparr>ev_screenshots :=
                       Some \<lparr>s_displays = screenPaths r, s_appWindow = appWindowPath r\<rparr>\<rparr>)"

definition clearEventSlots :: "registry \<Rightarrow> registry" where
  "clearEventSlots s = s\<lparr>eventSlots := [], maxCompletedEventId := -1\<rparr>"

text \<open>
  The slot part of \<^verbatim>\<open>startRecording\<close> (lines 1847--1864): counter to 0, slots
  cleared, a new \<^verbatim>\<open>sessionData\<close> with an empty log.
\<close>

definition startRecording_slots :: "registry \<Rightarrow> registry" where
  "startRecording_slots s = (clearEventSlots (s\<lparr>eventCounter := 0\<rparr>))\<lparr>events := []\<rparr>"

text \<open>
  The slot part of \<^verbatim>\<open>stopRecording\<close> (lines 1951--1963): one \<^verbatim>\<open>console.warn\<close> per
  slot that is still pending, in the map's order, then \<^verbatim>\<open>clearEventSlots()\<close>. The
  result is the list of ids warned about and the new state.
\<close>

definition stopRecording_slots :: "registry \<Rightarrow> int list \<times> registry" where
  "stopRecording_slots s =
     (map fst (filter (\<lambda>(eventId, event). ev_pending event) (eventSlots s)),
      clearEventSlots s)"

subsection \<open>A session as a sequence of callbacks\<close>

text \<open>
  The event loop runs one callback at a time. A session is a list of such callbacks:
  a slot creation, the first segment of a \<^verbatim>\<open>completeEvent\<close> call, or the resumption
  of an in-flight call (chosen by its position among the calls in flight) with the
  result of its screenshot capture. Every interleaving of the source is such a list.
\<close>

record completion =
  c_eventId :: int
  c_eventSlot :: event_slot
  c_completeData :: jsobject

record session =
  reg :: registry
  inflight :: "completion list"
  errors :: "complete_error list"

datatype callback =
    CreateSlot string jsobject rat int
  | Complete int jsobject
  | Resume nat "capture_result option"

definition drop_nth :: "nat \<Rightarrow> 'a list \<Rightarrow> 'a list" where
  "drop_nth k xs = take k xs @ drop (Suc k) xs"

fun exec :: "callback \<Rightarrow> session \<Rightarrow> session" where
  "exec (CreateSlot eventType basicData timestamp absoluteTimestamp) t =
     t\<lparr>reg := snd (createEventSlot eventType basicData timestamp absoluteTimestamp (reg t))\<rparr>"
| "exec (Complete eventId completeData) t =
     (case completeEvent_begin eventId (reg t) of
        Inl e \<Rightarrow> t\<lparr>errors := errors t @ [e]\<rparr>
      | Inr eventSlot \<Rightarrow>
          t\<lparr>inflight := inflight t @
               [\<lparr>c_eventId = eventId, c_eventSlot = eventSlot,
                 c_completeData = completeData\<rparr>]\<rparr>)"
| "exec (Resume k shots) t =
     (if k < length (inflight t)
      then let c = inflight t ! k
           in t\<lparr>reg := completeEvent_finish (c_eventId c) (c_eventSlot c)
                          (c_completeData c) shots (reg t),
                inflight := drop_nth k (inflight t)\<rparr>
      else t)"

definition run :: "callback list \<Rightarrow> session \<Rightarrow> session" where
  "run cbs t = fold exec cbs t"

definition session_start :: session where
  "session_start =
     \<lparr>reg = \<lparr>eventCounter = 0, eventSlots = [], maxCompletedEventId = -1, events = []\<rparr>,
      inflight = [], errors = []\<rparr>"

text \<open>
  The stop as a callback of the session: the slot state is cleared, the
  \<^verbatim>\<open>completeEvent\<close> calls in flight stay in flight.
\<close>

definition stopRecording_session :: "session \<Rightarrow> session" where
  "stopRecording_session t = t\<lparr>reg := snd (stopRecording_slots (reg t))\<rparr>"

subsection \<open>Predicates on the slot state\<close>

text \<open>
  The flush loop has nothing to do: the slot after the high-water mark is missing or
  still pending.
\<close>

definition flush_stopped :: "registry \<Rightarrow> bool" where
  "flush_stopped r =
     (case map_of (eventSlots r) (maxCompletedEventId r + 1) of
        None \<Rightarrow> True
      | Some event \<Rightarrow> ev_pending event)"

text \<open>
  What every state of a session satisfies: the log holds the ids
  \<open>0, \<dots>, maxCompletedEventId\<close> in this order, the flush loop is at rest, and every
  stored or captured slot carries the id it is stored under.
\<close>

definition session_inv :: "session \<Rightarrow> bool" where
  "session_inv t =
     (map ev_id (events (reg t)) = [0..maxCompletedEventId (reg t)]
      \<and> - 1 \<le> maxCompletedEventId (reg t)
      \<and> flush_stopped (reg t)
      \<and> list_all (\<lambda>(k, e). ev_id e = k) (eventSlots (reg t))
      \<and> list_all (\<lambda>c. ev_id (c_eventSlot c) = c_eventId c) (inflight t))"

text \<open>
  Ids in use are below \<^verbatim>\<open>eventCounter\<close>, and a pending slot lies above the
  high-water mark.
\<close>

definition session_bounds :: "session \<Rightarrow> bool" where
  "session_bounds t =
     (maxCompletedEventId (reg t) < eventCounter (reg t)
      \<and> list_all (\<lambda>(k, e). k < eventCounter (reg t)) (eventSlots (reg t))
      \<and> list_all (\<lambda>c. c_eventId c < eventCounter (reg t)) (inflight t)
      \<and> list_all (\<lambda>(k, e). ev_pending e \<longrightarrow> maxCompletedEventId (reg t) < k)
            (eventSlots (reg t)))"

text \<open>
  A completion of \<open>eventId\<close> has already run its second segment: the slot is in
  the log (at or below the high-water mark) or is stored with \<^verbatim>\<open>_pending: false\<close>.
\<close>

definition already_completed :: "registry \<Rightarrow> int \<Rightarrow> bool" where
  "already_completed r eventId =
     (eventId \<le> maxCompletedEventId r
      \<or> (case map_of (eventSlots r) eventId of
            None \<Rightarrow> False
          | Some event \<Rightarrow> \<not> ev_pending event))"

subsection \<open>Scenarios\<close>

text \<open>
  The event a slot ends as: created with \<open>basicData\<close> at the two clock readings,
  completed with \<open>completeData\<close> and the capture result \<open>shots\<close>, flushed.
\<close>

definition finalized ::
  "int \<Rightarrow> string \<Rightarrow> rat \<Rightarrow> int \<Rightarrow> jsobject \<Rightarrow> jsobject \<Rightarrow> capture_result option \<Rightarrow> final_event" where
  "finalized i eventType timestamp absoluteTimestamp basicData completeData shots =
     \<lparr>ev_id = i, ev_type = eventType, ev_timestamp = timestamp,
      ev_absoluteTimestamp = absoluteTimestamp,
      ev_fields = spread basicData completeData,
      ev_screenshots =
        map_option (\<lambda>r. \<lparr>s_displays = screenPaths r, s_appWindow = appWindowPath r\<rparr>) shots\<rparr>"

text \<open>
  Three input events dispatched one after the other. Each handler creates its slot and
  calls \<^verbatim>\<open>eventSlot.complete(additionalData)\<close> at once, which runs the first segment
  of \<^verbatim>\<open>completeEvent\<close> before the handler yields.
\<close>

definition three_dispatched ::
  "string \<Rightarrow> jsobject \<Rightarrow> rat \<Rightarrow> int \<Rightarrow> jsobject \<Rightarrow>
   string \<Rightarrow> jsobject \<Rightarrow> rat \<Rightarrow> int \<Rightarrow> jsobject \<Rightarrow>
   string \<Rightarrow> jsobject \<Rightarrow> rat \<Rightarrow> int \<Rightarrow> jsobject \<Rightarrow> callback list" where
  "three_dispatched ty0 p0 ts0 a0 d0 ty1 p1 ts1 a1 d1 ty2 p2 ts2 a2 d2 =
     [CreateSlot ty0 p0 ts0 a0, Complete 0 d0,
      CreateSlot ty1 p1 ts1 a1, Complete 1 d1,
      CreateSlot ty2 p2 ts2 a2, Complete 2 d2]"

text \<open>A slot with an empty payload, for examples.\<close>

definition ex_slot :: "int \<Rightarrow> bool \<Rightarrow> event_slot" where
  "ex_slot i p = \<lparr>ev_id = i, ev_type = ''click'', ev_timestamp = 0, ev_absoluteTimestamp = 0,
      ev_fields = [], ev_screenshots = None, ev_pending = p\<rparr>"

section \<open>Window bounds (main.js, lines 35--41, 148--206 and 965--996)\<close>

text \<open>
  The bounds object \<^verbatim>\<open>getApplicationWindowBoundsRaw\<close> resolves to, and the window
  source \<^verbatim>\<open>getActiveApplicationWindow\<close> resolves to (its \<^verbatim>\<open>id\<close> and \<^verbatim>\<open>name\<close>).
  Pixel coordinates are integers.
\<close>

record app_bounds =
  b_x :: int
  b_y :: int
  b_width :: int
  b_height :: int
  b_windowName :: string
  b_method :: string

record app_window =
  w_id :: string
  w_name :: string

record application_window =
  aw_x :: int
  aw_y :: int
  aw_width :: int
  aw_height :: int
  aw_name :: string
  aw_method :: string

record app_relative =
  rel_x :: int
  rel_y :: int
  isInsideApp :: bool
  applicationWindow :: application_window

text \<open>\<^verbatim>\<open>getApplicationRelativeCoordinates(desktopX, desktopY, appBounds)\<close>.\<close>

definition getApplicationRelativeCoordinates ::
  "int \<Rightarrow> int \<Rightarrow> app_bounds option \<Rightarrow> app_relative option" where
  "getApplicationRelativeCoordinates desktopX desktopY appBounds =
     (case appBounds of
        None \<Rightarrow> None
      | Some b \<Rightarrow>
          let relativeX = desktopX - b_x b;
              relativeY = desktopY - b_y b;
              inside = (relativeX \<ge> 0 \<and> relativeY \<ge> 0
                        \<and> relativeX \<le> b_width b \<and> relativeY \<le> b_height b)
          in Some \<lparr>rel_x = relativeX, rel_y = relativeY, isInsideApp = inside,
                   applicationWindow =
                     \<lparr>aw_x = b_x b, aw_y = b_y b, aw_width = b_width b,
                      aw_height = b_height b, aw_name = b_windowName b,
                      aw_method = b_method b\<rparr>\<rparr>)"

subsection \<open>The cache\<close>

record bounds_cache =
  cachedAppBounds :: "app_bounds option"
  cachedAppWindow :: "app_window option"
  lastBoundsUpdate :: int
  boundsUpdateInProgress :: bool

definition BOUNDS_CACHE_DURATION :: int where
  "BOUNDS_CACHE_DURATION = 2000"

text \<open>How an awaited promise settles: with a value, or rejected (the \<^verbatim>\<open>catch\<close> block).\<close>

datatype 'a settled = Resolved 'a | Rejected

text \<open>
  \<^verbatim>\<open>updateCachedAppBounds\<close> is an async function with two awaits, so it runs in up to
  three segments. A segment either returns to the caller or suspends on an underlying
  query, keeping the locals it needs: \<^verbatim>\<open>now\<close>, and later \<^verbatim>\<open>appWindow\<close>.
\<close>

datatype update_step =
    Return "app_bounds option"
  | AwaitWindow int
  | AwaitBounds int app_window

text \<open>First segment, up to \<^verbatim>\<open>await getActiveApplicationWindow()\<close>; \<open>now\<close> is \<^verbatim>\<open>Date.now()\<close>.\<close>

definition updateCachedAppBounds_begin :: "int \<Rightarrow> bounds_cache \<Rightarrow> update_step \<times> bounds_cache" where
  "updateCachedAppBounds_begin now s =
     (if boundsUpdateInProgress s then (Return (cachedAppBounds s), s)
      else if cachedAppBounds s \<noteq> None \<and> now - lastBoundsUpdate s < BOUNDS_CACHE_DURATION
      then (Return (cachedAppBounds s), s)
      else (AwaitWindow now, s\<lparr>boundsUpdateInProgress := True\<rparr>))"

text \<open>Second segment, from the settled window query to \<^verbatim>\<open>await getApplicationWindowBoundsRaw(appWindow)\<close>.\<close>

definition updateCachedAppBounds_window ::
  "int \<Rightarrow> app_window option settled \<Rightarrow> bounds_cache \<Rightarrow> update_step \<times> bounds_cache" where
  "updateCachedAppBounds_window now res s =
     (case res of
        Rejected \<Rightarrow> (Return (cachedAppBounds s), s\<lparr>boundsUpdateInProgress := False\<rparr>)
      | Resolved None \<Rightarrow> (Return None, s\<lparr>boundsUpdateInProgress := False\<rparr>)
      | Resolved (Some appWindow) \<Rightarrow>
          if (case cachedAppWindow s of
                None \<Rightarrow> False
              | Some cached \<Rightarrow> w_id cached = w_id appWindow)
             \<and> now - lastBoundsUpdate s < BOUNDS_CACHE_DURATION
          then (Return (cachedAppBounds s), s\<lparr>boundsUpdateInProgress := False\<rparr>)
          else (AwaitBounds now appWindow, s))"

text \<open>Third segment, from the settled bounds query to the return.\<close>

definition updateCachedAppBounds_bounds ::
  "int \<Rightarrow> app_window \<Rightarrow> app_bounds option settled \<Rightarrow> bounds_cache
   \<Rightarrow> app_bounds option \<times> bounds_cache" where
  "updateCachedAppBounds_bounds now appWindow res s =
     (case res of
        Rejected \<Rightarrow> (cachedAppBounds s, s\<lparr>boundsUpdateInProgress := False\<rparr>)
      | Resolved None \<Rightarrow> (None, s\<lparr>boundsUpdateInProgress := False\<rparr>)
      | Resolved (Some bounds) \<Rightarrow>
          (Some bounds,
           s\<lparr>cachedAppBounds := Some bounds, cachedAppWindow := Some appWindow,
             lastBoundsUpdate := now, boundsUpdateInProgress := False\<rparr>))"

text \<open>
  \<^verbatim>\<open>getCachedAppBounds\<close>: its own freshness test at its own clock reading \<open>now\<close>, else
  \<^verbatim>\<open>updateCachedAppBounds()\<close>, which reads the clock again (\<open>now'\<close>).
\<close>

definition getCachedAppBounds_begin ::
  "int \<Rightarrow> int \<Rightarrow> bounds_cache \<Rightarrow> update_step \<times> bounds_cache" where
  "getCachedAppBounds_begin now now' s =
     (if cachedAppBounds s \<noteq> None \<and> now - lastBoundsUpdate s < BOUNDS_CACHE_DURATION
      then (Return (cachedAppBounds s), s)
      else updateCachedAppBounds_begin now' s)"

text \<open>The cache part of \<^verbatim>\<open>stopRecording\<close> (lines 1944--1949); the flag is not touched.\<close>

definition clearBoundsCache :: "bounds_cache \<Rightarrow> bounds_cache" where
  "clearBoundsCache s = s\<lparr>cachedAppBounds := None, cachedAppWindow := None, lastBoundsUpdate := 0\<rparr>"

subsection \<open>Concurrent callers\<close>

text \<open>
  Callers are numbered in the order of their calls. A state of the cache system is the
  cache, the suspended calls (caller and continuation, in the order they suspended), and
  what each returned call returned. A callback is a call of \<^verbatim>\<open>getCachedAppBounds\<close>
  (event handlers) or of \<^verbatim>\<open>updateCachedAppBounds\<close> (session start, focus poller), or
  the settling of the query a suspended call waits for, or the clearing at stop.
\<close>

record bounds_sys =
  cache :: bounds_cache
  suspended :: "(nat \<times> update_step) list"
  returned :: "(nat \<times> app_bounds option) list"
  calls :: nat

datatype bounds_callback =
    GetBounds int int
  | UpdateBounds int
  | WindowSettles nat "app_window option settled"
  | BoundsSettles nat "app_bounds option settled"
  | ClearCache

definition deliver :: "nat \<Rightarrow> update_step \<times> bounds_cache \<Rightarrow> bounds_sys \<Rightarrow> bounds_sys" where
  "deliver caller out t =
     (case fst out of
        Return v \<Rightarrow> t\<lparr>cache := snd out, returned := returned t @ [(caller, v)]\<rparr>
      | step \<Rightarrow> t\<lparr>cache := snd out, suspended := suspended t @ [(caller, step)]\<rparr>)"

fun bounds_exec :: "bounds_callback \<Rightarrow> bounds_sys \<Rightarrow> bounds_sys" where
  "bounds_exec (GetBounds now now') t =
     (deliver (calls t) (getCachedAppBounds_begin now now' (cache t)) t)\<lparr>calls := Suc (calls t)\<rparr>"
| "bounds_exec (UpdateBounds now) t =
     (deliver (calls t) (updateCachedAppBounds_begin now (cache t)) t)\<lparr>calls := Suc (calls t)\<rparr>"
| "bounds_exec (WindowSettles j res) t =
     (if j < length (suspended t)
      then (case suspended t ! j of
              (caller, AwaitWindow now) \<Rightarrow>
                deliver caller (updateCachedAppBounds_window now res (cache t))
                  (t\<lparr>suspended := drop_nth j (suspended t)\<rparr>)
            | _ \<Rightarrow> t)
      else t)"
| "bounds_exec (BoundsSettles j res) t =
     (if j < length (suspended t)
      then (case suspended t ! j of
              (caller, AwaitBounds now appWindow) \<Rightarrow>
                (let out = updateCachedAppBounds_bounds now appWindow res (cache t)
                 in t\<lparr>cache := snd out, suspended := drop_nth j (suspended t),
                      returned := returned t @ [(caller, fst out)]\<rparr>)
            | _ \<Rightarrow> t)
      else t)"
| "bounds_exec ClearCache t = t\<lparr>cache := clearBoundsCache (cache t)\<rparr>"

definition bounds_run :: "bounds_callback list \<Rightarrow> bounds_sys \<Rightarrow> bounds_sys" where
  "bounds_run cbs t = fold bounds_exec cbs t"

text \<open>The cache system with nothing cached and nothing in flight, as at module load.\<close>

definition bounds_idle :: bounds_sys where
  "bounds_idle =
     \<lparr>cache = \<lparr>cachedAppBounds = None, cachedAppWindow = None, lastBoundsUpdate = 0,
                boundsUpdateInProgress = False\<rparr>,
      suspended = [], returned = [], calls = 0\<rparr>"

text \<open>
  At most one underlying resolution is in flight, and the flag is set exactly while one
  is.
\<close>

definition single_flight :: "bounds_sys \<Rightarrow> bool" where
  "single_flight t =
     (length (suspended t) \<le> 1
      \<and> (boundsUpdateInProgress (cache t) \<longleftrightarrow> suspended t \<noteq> [])
      \<and> list_all (\<lambda>(caller, step). case step of Return v \<Rightarrow> False | _ \<Rightarrow> True) (suspended t))"

text \<open>A window and its bounds, for examples.\<close>

definition ex_bounds :: app_bounds where
  "ex_bounds = \<lparr>b_x = 100, b_y = 50, b_width = 800, b_height = 600,
                 b_windowName = ''Safari'', b_method = ''applescript''\<rparr>"

definition ex_window :: app_window where
  "ex_window = \<lparr>w_id = ''window:42:0'', w_name = ''Safari''\<rparr>"

section \<open>Scroll aggregation (main.js, lines 2097--2106, 2377--2422 and 2440--2496)\<close>

text \<open>
  A wheel sample as the handler reads it, with the time at which the event loop
  dispatches it. uiohook reports the rotation of a wheel event as an integer (a signed
  16-bit count in libuiohook), so rotations are integers here; on integers the additions
  of the handler and \<^verbatim>\<open>Math.round(amount * 10) / 10\<close> are exact in the double
  arithmetic of the code.
\<close>

record wheel_input =
  wi_time :: int
  wi_rotation :: int
  wi_x :: int
  wi_y :: int

record wheel_sample =
  ws_rotation :: int
  ws_x :: int
  ws_y :: int
  ws_timestamp :: int

record scroll_accumulator =
  totalVertical :: int
  totalHorizontal :: int
  lastX :: int
  lastY :: int
  startTime :: int
  acc_events :: "wheel_sample list"

record rect =
  r_x :: int
  r_y :: int
  r_width :: int
  r_height :: int

text \<open>
  The locals a \<^verbatim>\<open>captureScrollSequence\<close> call keeps across its awaits.
\<close>

record capture_locals =
  cl_direction :: string
  cl_amount :: int
  cl_duration :: int
  cl_screenInfo :: jsval

text \<open>
  The state the scroll code works on: the accumulator; the deadline of the pending
  debounce timeout, if one is pending; the \<^verbatim>\<open>captureScrollSequence\<close> calls suspended at
  \<^verbatim>\<open>await getApplicationWindowBounds()\<close>; how many are suspended at
  \<^verbatim>\<open>await eventSlot.complete(...)\<close>; the slot system; \<^verbatim>\<open>isRecording\<close>; and the
  bounds of the overlay window when it exists and is not destroyed.
\<close>

record scroll_state =
  scrollAccumulator :: scroll_accumulator
  scrollDebounceTimer :: "int option"
  capturing :: "capture_locals list"
  completing :: nat
  slots :: session
  isRecording :: bool
  overlayBounds :: "rect option"

definition isOnOverlay :: "rect option \<Rightarrow> int \<Rightarrow> int \<Rightarrow> bool" where
  "isOnOverlay overlay x y =
     (case overlay of
        None \<Rightarrow> False
      | Some b \<Rightarrow> x \<ge> r_x b \<and> x \<le> r_x b + r_width b \<and> y \<ge> r_y b \<and> y \<le> r_y b + r_height b)"

text \<open>The accumulator update of the wheel handler (lines 2395--2411).\<close>

definition accumulate :: "wheel_input \<Rightarrow> scroll_accumulator \<Rightarrow> scroll_accumulator" where
  "accumulate e a =
     (let a1 = (if acc_events a = []
                then a\<lparr>startTime := wi_time e, totalVertical := 0, totalHorizontal := 0\<rparr>
                else a)
      in a1\<lparr>totalVertical := totalVertical a1 + wi_rotation e,
            lastX := wi_x e, lastY := wi_y e,
            acc_events := acc_events a1 @
              [\<lparr>ws_rotation = wi_rotation e, ws_x = wi_x e, ws_y = wi_y e,
                ws_timestamp = wi_time e\<rparr>]\<rparr>)"

text \<open>
  The wheel handler: \<^verbatim>\<open>clearTimeout\<close> of the pending timeout and a new one 300 ms
  from now.
\<close>

definition on_wheel :: "wheel_input \<Rightarrow> scroll_state \<Rightarrow> scroll_state" where
  "on_wheel e s =
     (if \<not> isRecording s then s
      else if isOnOverlay (overlayBounds s) (wi_x e) (wi_y e) then s
      else s\<lparr>scrollAccumulator := accumulate e (scrollAccumulator s),
             scrollDebounceTimer := Some (wi_time e + 300)\<rparr>)"

text \<open>\<^verbatim>\<open>Math.round\<close>: the nearest integer, a tie going up.\<close>

definition js_round :: "rat \<Rightarrow> int" where
  "js_round q = \<lfloor>q + 1 / 2\<rfloor>"

text \<open>
  First segment of \<^verbatim>\<open>captureScrollSequence\<close>, up to
  \<^verbatim>\<open>await getApplicationWindowBounds()\<close>; \<open>screenInfo\<close> is what
  \<^verbatim>\<open>getCurrentScreenInfo\<close> returned.
\<close>

definition captureScrollSequence_begin :: "int \<Rightarrow> jsval \<Rightarrow> scroll_state \<Rightarrow> scroll_state" where
  "captureScrollSequence_begin now screenInfo s =
     (let a = scrollAccumulator s
      in if acc_events a = [] then s
         else let totalRotation = totalVertical a;
                  direction = (if totalRotation > 0 then ''up'' else ''down'');
                  amount = \<bar>totalRotation\<bar>;
                  duration = now - startTime a
              in if (of_int amount :: rat) < 1 / 2
                 then s\<lparr>scrollAccumulator := a\<lparr>acc_events := []\<rparr>\<rparr>
                 else s\<lparr>capturing := capturing s @
                         [\<lparr>cl_direction = direction, cl_amount = amount,
                           cl_duration = duration, cl_screenInfo = screenInfo\<rparr>]\<rparr>)"

text \<open>The debounce timeout fires when it is pending and due.\<close>

definition timer_fires :: "int \<Rightarrow> jsval \<Rightarrow> scroll_state \<Rightarrow> scroll_state" where
  "timer_fires now screenInfo s =
     (case scrollDebounceTimer s of
        None \<Rightarrow> s
      | Some deadline \<Rightarrow>
          if deadline \<le> now
          then captureScrollSequence_begin now screenInfo (s\<lparr>scrollDebounceTimer := None\<rparr>)
          else s)"

definition app_relative_js :: "app_relative \<Rightarrow> jsval" where
  "app_relative_js r =
     JObj [(''x'', JNum (of_int (rel_x r))), (''y'', JNum (of_int (rel_y r))),
           (''isInsideApp'', JBool (isInsideApp r)),
           (''applicationWindow'',
            JObj [(''x'', JNum (of_int (aw_x (applicationWindow r)))),
                  (''y'', JNum (of_int (aw_y (applicationWindow r)))),
                  (''width'', JNum (of_int (aw_width (applicationWindow r)))),
                  (''height'', JNum (of_int (aw_height (applicationWindow r)))),
                  (''name'', JStr (aw_name (applicationWindow r))),
                  (''method'', JStr (aw_method (applicationWindow r)))])]"

text \<open>The \<^verbatim>\<open>basicData\<close> of a scroll slot (lines 2462--2470).\<close>

definition scroll_payload :: "scroll_accumulator \<Rightarrow> capture_locals \<Rightarrow> jsobject" where
  "scroll_payload a l =
     [(''x'', JNum (of_int (lastX a))),
      (''y'', JNum (of_int (lastY a))),
      (''direction'', JStr (cl_direction l)),
      (''totalAmount'', JNum (of_int (js_round (of_int (cl_amount l) * 10)) / 10)),
      (''duration'', JNum (of_int (cl_duration l))),
      (''individualScrolls'', JNum (of_nat (length (acc_events a)))),
      (''screenInfo'', cl_screenInfo l)]"

text \<open>
  Second segment: the \<open>k\<close>-th suspended call resumes with the bounds, creates the slot
  from the accumulator as it is \<^emph>\<open>now\<close> and from its locals, and runs the first
  segment of \<^verbatim>\<open>completeEvent\<close>.
\<close>

definition captureScrollSequence_bounds ::
  "nat \<Rightarrow> app_bounds option \<Rightarrow> rat \<Rightarrow> int \<Rightarrow> scroll_state \<Rightarrow> scroll_state" where
  "captureScrollSequence_bounds k appBounds timestamp absoluteTimestamp s =
     (if k < length (capturing s)
      then let a = scrollAccumulator s;
               l = capturing s ! k;
               appRelative = getApplicationRelativeCoordinates (lastX a) (lastY a) appBounds;
               eventId = eventCounter (reg (slots s));
               additionalData =
                 (case (appRelative, appBounds) of
                    (Some r, Some b) \<Rightarrow>
                      if b_method b \<noteq> ''fallback'' then [(''appRelative'', app_relative_js r)] else []
                  | _ \<Rightarrow> [])
           in s\<lparr>slots := exec (Complete eventId additionalData)
                            (exec (CreateSlot ''scroll_sequence'' (scroll_payload a l)
                                     timestamp absoluteTimestamp) (slots s)),
                capturing := drop_nth k (capturing s),
                completing := Suc (completing s)\<rparr>
      else s)"

text \<open>Third segment, after \<^verbatim>\<open>eventSlot.complete\<close> has resolved: the reset.\<close>

definition captureScrollSequence_finish :: "scroll_state \<Rightarrow> scroll_state" where
  "captureScrollSequence_finish s =
     (if completing s = 0 then s
      else s\<lparr>scrollAccumulator :=
               (scrollAccumulator s)\<lparr>acc_events := [], totalVertical := 0, totalHorizontal := 0\<rparr>,
             completing := completing s - 1\<rparr>)"

text \<open>
  Wheel samples dispatched in the order of their times. Before a sample is handled, a
  debounce timeout that is due at that time has fired.
\<close>

fun wheel_burst :: "(int \<Rightarrow> int \<Rightarrow> jsval) \<Rightarrow> wheel_input list \<Rightarrow> scroll_state \<Rightarrow> scroll_state" where
  "wheel_burst info [] s = s"
| "wheel_burst info (e # es) s =
     wheel_burst info es
       (on_wheel e
          (timer_fires (wi_time e)
             (info (lastX (scrollAccumulator s)) (lastY (scrollAccumulator s))) s))"

text \<open>Each sample arrives less than 300 ms after the one before it.\<close>

fun within_debounce :: "wheel_input list \<Rightarrow> bool" where
  "within_debounce (e1 # e2 # es) =
     (wi_time e1 \<le> wi_time e2 \<and> wi_time e2 - wi_time e1 < 300 \<and> within_debounce (e2 # es))"
| "within_debounce es = True"

text \<open>
  The scroll code at rest: nothing accumulated, no timeout pending, no capture in
  progress, recording on.
\<close>

definition scroll_idle :: "scroll_state \<Rightarrow> bool" where
  "scroll_idle s =
     (acc_events (scrollAccumulator s) = [] \<and> scrollDebounceTimer s = None
      \<and> capturing s = [] \<and> completing s = 0 \<and> isRecording s)"

definition total_rotation :: "wheel_input list \<Rightarrow> int" where
  "total_rotation es = sum_list (map wi_rotation es)"

text \<open>The scroll state right after a session has started.\<close>

definition scroll_start :: scroll_state where
  "scroll_start =
     \<lparr>scrollAccumulator = \<lparr>totalVertical = 0, totalHorizontal = 0, lastX = 0, lastY = 0,
                            startTime = 0, acc_events = []\<rparr>,
      scrollDebounceTimer = None, capturing = [], completing = 0, slots = session_start,
      isRecording = True, overlayBounds = None\<rparr>"

section \<open>Stopping a recorder process (main.js, lines 361--419 and 491--544)\<close>

text \<open>
  What can be sent to a recorder: a signal through \<^verbatim>\<open>process.kill(signal)\<close>, or the
  line \<^verbatim>\<open>q\<close> on the standard input of FFmpeg.
\<close>

datatype signal = SIGINT | SIGTERM | SIGKILL

datatype request = Signal signal | QuitCommand

text \<open>
  A spawned child: whether the operating-system process still runs, the \<^verbatim>\<open>killed\<close>
  property of Node's \<^verbatim>\<open>ChildProcess\<close> object, and what has been delivered to the
  process.
\<close>

record child_process =
  alive :: bool
  killed :: bool
  delivered :: "request list"

definition spawned :: child_process where
  "spawned = \<lparr>alive = True, killed = False, delivered = []\<rparr>"

text \<open>
  How the process reacts is a parameter \<open>ignores\<close>: a request it ignores leaves it
  running, any other ends it. \<^verbatim>\<open>SIGKILL\<close> cannot be ignored.
\<close>

definition survives :: "(request \<Rightarrow> bool) \<Rightarrow> request \<Rightarrow> bool" where
  "survives ignores rq = (rq \<noteq> Signal SIGKILL \<and> ignores rq)"

text \<open>
  \<^verbatim>\<open>subprocess.kill(signal)\<close> of Node.js, which the code calls: when the process still
  runs the signal is delivered and \<^verbatim>\<open>killed\<close> is set to \<^verbatim>\<open>true\<close>; when it has already
  ended nothing changes. As Node documents it, \<^verbatim>\<open>killed\<close> says that a signal was sent
  successfully, not that the process has terminated.
\<close>

definition kill :: "(request \<Rightarrow> bool) \<Rightarrow> signal \<Rightarrow> child_process \<Rightarrow> child_process" where
  "kill ignores sig p =
     (if alive p
      then p\<lparr>killed := True, delivered := delivered p @ [Signal sig],
             alive := survives ignores (Signal sig)\<rparr>
      else p)"

text \<open>\<^verbatim>\<open>stdin.write('q\n'); stdin.end()\<close> on a process that still runs.\<close>

definition write_quit :: "(request \<Rightarrow> bool) \<Rightarrow> child_process \<Rightarrow> child_process" where
  "write_quit ignores p =
     (if alive p
      then p\<lparr>delivered := delivered p @ [QuitCommand], alive := survives ignores QuitCommand\<rparr>
      else p)"

datatype recorder = Native | FFmpeg

text \<open>
  The promise the stop function creates for one process: the child, the deadlines of
  \<^verbatim>\<open>forceKillTimeout\<close> and of the inner, final timeout while they are pending, whether the
  \<^verbatim>\<open>exit\<close> event has been dispatched, and whether the promise has resolved.
\<close>

record stopping =
  child :: child_process
  forceKillTimeout :: "int option"
  finalTimeout :: "int option"
  exitDispatched :: bool
  resolved :: bool

definition graceful_timeout :: "recorder \<Rightarrow> int" where
  "graceful_timeout kind = (case kind of Native \<Rightarrow> 5000 | FFmpeg \<Rightarrow> 10000)"

definition final_timeout :: int where
  "final_timeout = 3000"

text \<open>
  The executor of the promise, at time \<open>now\<close>: the first timeout is set, the handlers
  are registered, and the graceful request is sent: \<^verbatim>\<open>SIGINT\<close> to the native recorder,
  \<^verbatim>\<open>q\<close> to FFmpeg, or \<^verbatim>\<open>SIGINT\<close> when writing to its standard input throws
  (\<open>stdin_ok\<close> false).
\<close>

definition stop_begin ::
  "recorder \<Rightarrow> bool \<Rightarrow> (request \<Rightarrow> bool) \<Rightarrow> int \<Rightarrow> child_process \<Rightarrow> stopping" where
  "stop_begin kind stdin_ok ignores now p =
     \<lparr>child = (case kind of
                 Native \<Rightarrow> kill ignores SIGINT p
               | FFmpeg \<Rightarrow> if stdin_ok then write_quit ignores p else kill ignores SIGINT p),
      forceKillTimeout = Some (now + graceful_timeout kind),
      finalTimeout = None, exitDispatched = False, resolved = False\<rparr>"

text \<open>
  The callbacks that follow: the first timeout fires (\<^verbatim>\<open>SIGTERM\<close>, and the final
  timeout is set), the final timeout fires (\<^verbatim>\<open>SIGKILL\<close> under the guard
  \<^verbatim>\<open>!process.killed\<close>), or the \<^verbatim>\<open>exit\<close> event of a process that has ended is
  dispatched (\<^verbatim>\<open>clearTimeout(forceKillTimeout)\<close> and \<^verbatim>\<open>resolve()\<close>), or an
  \<^verbatim>\<open>error\<close> event is dispatched (the same two calls). A timeout fires only when it is
  pending and due.
\<close>

datatype stop_callback = ForceKillTimeout int | FinalTimeout int | ExitEvent | ErrorEvent

fun stop_exec :: "(request \<Rightarrow> bool) \<Rightarrow> stop_callback \<Rightarrow> stopping \<Rightarrow> stopping" where
  "stop_exec ignores (ForceKillTimeout now) s =
     (case forceKillTimeout s of
        None \<Rightarrow> s
      | Some deadline \<Rightarrow>
          if deadline \<le> now
          then s\<lparr>child := kill ignores SIGTERM (child s), forceKillTimeout := None,
                 finalTimeout := Some (now + final_timeout)\<rparr>
          else s)"
| "stop_exec ignores (FinalTimeout now) s =
     (case finalTimeout s of
        None \<Rightarrow> s
      | Some deadline \<Rightarrow>
          if deadline \<le> now
          then (if \<not> killed (child s)
                then s\<lparr>child := kill ignores SIGKILL (child s), finalTimeout := None\<rparr>
                else s\<lparr>finalTimeout := None\<rparr>)
          else s)"
| "stop_exec ignores ExitEvent s =
     (if \<not> alive (child s) \<and> \<not> exitDispatched s
      then s\<lparr>forceKillTimeout := None, exitDispatched := True, resolved := True\<rparr>
      else s)"
| "stop_exec ignores ErrorEvent s = s\<lparr>forceKillTimeout := None, resolved := True\<rparr>"

definition stop_run :: "(request \<Rightarrow> bool) \<Rightarrow> stop_callback list \<Rightarrow> stopping \<Rightarrow> stopping" where
  "stop_run ignores cbs s = fold (stop_exec ignores) cbs s"

text \<open>A process that ignores every request it can ignore.\<close>

definition stubborn :: "request \<Rightarrow> bool" where
  "stubborn rq = True"

text \<open>
  While the final timeout is pending, \<^verbatim>\<open>killed\<close> is already set unless the process has
  ended; and no \<^verbatim>\<open>SIGKILL\<close> has been delivered.
\<close>

definition no_kill_inv :: "stopping \<Rightarrow> bool" where
  "no_kill_inv s =
     (Signal SIGKILL \<notin> set (delivered (child s))
      \<and> (finalTimeout s \<noteq> None \<longrightarrow> killed (child s) \<or> \<not> alive (child s)))"

section \<open>The ordered log\<close>

subsection \<open>The flush loop\<close>

lemma map_of_delete_other: "i \<noteq> k \<Longrightarrow> map_of (AList.delete k xs) i = map_of xs i"
  by (simp add: AList.delete_conv)

lemma finalize_loop_char:
  assumes "maxCompletedEventId s = n - 1"
  shows "let s' = finalize_loop n s; hi = maxCompletedEventId s' in
           n - 1 \<le> hi
         \<and> eventCounter s' = eventCounter s
         \<and> events s' = events s @ map (\<lambda>i. delete_pending (the (map_of (eventSlots s) i))) [n..hi]
         \<and> (\<forall>i. map_of (eventSlots s') i = (if n \<le> i \<and> i \<le> hi then None else map_of (eventSlots s) i))
         \<and> (\<forall>i\<in>{n..hi}. \<exists>e. map_of (eventSlots s) i = Some e \<and> \<not> ev_pending e)
         \<and> (case map_of (eventSlots s) (hi + 1) of None \<Rightarrow> True | Some e \<Rightarrow> ev_pending e)"
  using assms
proof (induction n s rule: finalize_loop.induct)
  case (1 n s)
  show ?case
  proof (cases "map_of (eventSlots s) n")
    case None
    then show ?thesis using "1.prems" by (auto simp: finalize_loop.simps [of n s])
  next
    case (Some event)
    show ?thesis
    proof (cases "ev_pending event")
      case True
      then show ?thesis using Some "1.prems" by (auto simp: finalize_loop.simps [of n s])
    next
      case False
      define s1 where "s1 = s\<lparr>events := events s @ [delete_pending event],
                    eventSlots := AList.delete n (eventSlots s),
                    maxCompletedEventId := n\<rparr>"
      have step: "finalize_loop n s = finalize_loop (n + 1) s1"
        using Some False by (simp add: finalize_loop.simps [of n s] s1_def)
      have m1: "maxCompletedEventId s1 = n + 1 - 1" by (simp add: s1_def)
      note IH = "1.IH" [OF Some False, folded s1_def, OF m1]
      define s' where "s' = finalize_loop (n + 1) s1"
      define hi where "hi = maxCompletedEventId s'"
      from IH have a: "n \<le> hi"
        and b: "eventCounter s' = eventCounter s1"
        and c: "events s' = events s1 @ map (\<lambda>i. delete_pending (the (map_of (eventSlots s1) i))) [n + 1..hi]"
        and d: "\<forall>i. map_of (eventSlots s') i = (if n + 1 \<le> i \<and> i \<le> hi then None else map_of (eventSlots s1) i)"
        and e: "\<forall>i\<in>{n + 1..hi}. \<exists>e. map_of (eventSlots s1) i = Some e \<and> \<not> ev_pending e"
        and f: "(case map_of (eventSlots s1) (hi + 1) of None \<Rightarrow> True | Some e \<Rightarrow> ev_pending e)"
        by (simp_all add: Let_def s'_def hi_def)
      have other: "\<And>i. i \<noteq> n \<Longrightarrow> map_of (eventSlots s1) i = map_of (eventSlots s) i"
        by (simp add: s1_def map_of_delete_other)
      have self: "map_of (eventSlots s1) n = None"
        by (simp add: s1_def AList.delete_conv)
      have up: "[n..hi] = n # [n + 1..hi]" using a by (simp add: upto_rec1)
      have mapeq: "map (\<lambda>i. delete_pending (the (map_of (eventSlots s1) i))) [n + 1..hi]
                 = map (\<lambda>i. delete_pending (the (map_of (eventSlots s) i))) [n + 1..hi]"
        by (rule map_cong) (auto simp: other)
      have c': "events s' = events s @ map (\<lambda>i. delete_pending (the (map_of (eventSlots s) i))) [n..hi]"
        using c mapeq Some by (simp add: up s1_def)
      have d': "\<forall>i. map_of (eventSlots s') i = (if n \<le> i \<and> i \<le> hi then None else map_of (eventSlots s) i)"
      proof
        fix i show "map_of (eventSlots s') i = (if n \<le> i \<and> i \<le> hi then None else map_of (eventSlots s) i)"
          using d [rule_format, of i] a self other [of i] by (cases "i = n") auto
      qed
      have e': "\<forall>i\<in>{n..hi}. \<exists>e. map_of (eventSlots s) i = Some e \<and> \<not> ev_pending e"
      proof
        fix i assume "i \<in> {n..hi}"
        then consider "i = n" | "i \<in> {n + 1..hi}" by force
        then show "\<exists>e. map_of (eventSlots s) i = Some e \<and> \<not> ev_pending e"
        proof cases
          case 1 then show ?thesis using Some False by simp
        next
          case 2
          then have "i \<noteq> n" by simp
          from e 2 obtain e0 where "map_of (eventSlots s1) i = Some e0" "\<not> ev_pending e0" by blast
          then show ?thesis using other [OF \<open>i \<noteq> n\<close>] by simp
        qed
      qed
      have f': "(case map_of (eventSlots s) (hi + 1) of None \<Rightarrow> True | Some e \<Rightarrow> ev_pending e)"
        using f other [of "hi + 1"] a by simp
      have b': "eventCounter s' = eventCounter s" using b by (simp add: s1_def)
      show ?thesis
        unfolding step Let_def s'_def [symmetric] hi_def [symmetric]
        using a b' c' d' e' f' by simp
    qed
  qed
qed

subsection \<open>Invariants of a session\<close>

lemma upto_append_split: "- 1 \<le> n - 1 \<Longrightarrow> n - 1 \<le> hi \<Longrightarrow> [0..n - 1] @ [n..hi] = [0..(hi::int)]"
proof (cases "n \<le> hi")
  case True
  assume "- 1 \<le> n - 1"
  then have "0 \<le> n" by simp
  from upto_split1 [OF this True] show ?thesis by simp
next
  case False
  assume "n - 1 \<le> hi"
  then have "hi = n - 1" using False by simp
  then show ?thesis by simp
qed

lemma finalize_loop_slots_subset:
  "set (eventSlots (finalize_loop n s)) \<subseteq> set (eventSlots s)"
proof (induction n s rule: finalize_loop.induct)
  case (1 n s)
  show ?case
  proof (cases "map_of (eventSlots s) n")
    case None
    then show ?thesis by (simp add: finalize_loop.simps [of n s])
  next
    case (Some event)
    show ?thesis
    proof (cases "ev_pending event")
      case True
      then show ?thesis using Some by (simp add: finalize_loop.simps [of n s])
    next
      case False
      have "set (AList.delete n (eventSlots s)) \<subseteq> set (eventSlots s)"
        by (auto simp: AList.delete_eq)
      then show ?thesis
        using "1.IH" [OF Some False] Some False
        by (auto simp: finalize_loop.simps [of n s])
    qed
  qed
qed

lemma keyed_update:
  "list_all (\<lambda>(k, e). ev_id e = k) xs \<Longrightarrow> ev_id e = k \<Longrightarrow>
   list_all (\<lambda>(k, e). ev_id e = k) (AList.update k e xs)"
  by (induction xs) auto

lemma keyed_lookup:
  "list_all (\<lambda>(k, e). ev_id e = k) xs \<Longrightarrow> map_of xs k = Some e \<Longrightarrow> ev_id e = k"
  by (auto simp: list_all_iff dest: map_of_SomeD)

lemma finalize_inv:
  assumes ids: "map ev_id (events s) = [0..maxCompletedEventId s]"
    and lo: "- 1 \<le> maxCompletedEventId s"
    and keyed: "list_all (\<lambda>(k, e). ev_id e = k) (eventSlots s)"
  shows "map ev_id (events (finalizeCompletedEvents s)) = [0..maxCompletedEventId (finalizeCompletedEvents s)]
       \<and> - 1 \<le> maxCompletedEventId (finalizeCompletedEvents s)
       \<and> flush_stopped (finalizeCompletedEvents s)
       \<and> list_all (\<lambda>(k, e). ev_id e = k) (eventSlots (finalizeCompletedEvents s))"
proof -
  define n where "n = maxCompletedEventId s + 1"
  define s' where "s' = finalize_loop n s"
  define hi where "hi = maxCompletedEventId s'"
  have fin: "finalizeCompletedEvents s = s'"
    by (simp add: finalizeCompletedEvents_def s'_def n_def)
  have m: "maxCompletedEventId s = n - 1" by (simp add: n_def)
  note ch = finalize_loop_char [OF m, unfolded Let_def, folded s'_def, folded hi_def]
  from ch have a: "n - 1 \<le> hi" by blast
  from ch have c: "events s' = events s @ map (\<lambda>i. delete_pending (the (map_of (eventSlots s) i))) [n..hi]" by blast
  from ch have d: "\<forall>i. map_of (eventSlots s') i = (if n \<le> i \<and> i \<le> hi then None else map_of (eventSlots s) i)" by blast
  from ch have e: "\<forall>i\<in>{n..hi}. \<exists>e. map_of (eventSlots s) i = Some e \<and> \<not> ev_pending e" by blast
  from ch have f: "(case map_of (eventSlots s) (hi + 1) of None \<Rightarrow> True | Some e \<Rightarrow> ev_pending e)" by blast
  have "map (\<lambda>i. ev_id (delete_pending (the (map_of (eventSlots s) i)))) [n..hi] = map (\<lambda>i. i) [n..hi]"
  proof (rule map_cong [OF refl])
    fix i assume "i \<in> set [n..hi]"
    then have "i \<in> {n..hi}" by simp
    with e have "\<exists>e0. map_of (eventSlots s) i = Some e0 \<and> \<not> ev_pending e0" by (rule bspec)
    then obtain e0 where "map_of (eventSlots s) i = Some e0" by blast
    then show "ev_id (delete_pending (the (map_of (eventSlots s) i))) = i"
      using keyed_lookup [OF keyed] by (simp add: delete_pending_def)
  qed
  then have new: "map ev_id (map (\<lambda>i. delete_pending (the (map_of (eventSlots s) i))) [n..hi]) = [n..hi]"
    by (simp add: comp_def)
  have split: "[0..n - 1] @ [n..hi] = [0..hi]"
    using lo a by (intro upto_append_split) (simp_all add: n_def)
  have ids': "map ev_id (events s') = [0..hi]"
    using c new ids split by (simp add: m)
  have lo': "- 1 \<le> hi" using a lo by (simp add: n_def)
  have "map_of (eventSlots s') (hi + 1) = map_of (eventSlots s) (hi + 1)"
    using d by simp
  then have st: "flush_stopped s'" using f by (simp add: flush_stopped_def hi_def)
  have "set (eventSlots s') \<subseteq> set (eventSlots s)"
    unfolding s'_def by (rule finalize_loop_slots_subset)
  then have k': "list_all (\<lambda>(k, e). ev_id e = k) (eventSlots s')"
    using keyed by (auto simp: list_all_iff)
  show ?thesis unfolding fin using ids' lo' st k' by (simp add: hi_def)
qed

lemma set_drop_nth: "set (drop_nth k xs) \<subseteq> set xs"
  by (auto simp: drop_nth_def dest: in_set_takeD in_set_dropD)

lemma session_inv_exec: "session_inv t \<Longrightarrow> session_inv (exec cb t)"
proof (cases cb)
  case (CreateSlot ty data ts abs)
  assume inv: "session_inv t"
  show ?thesis
    using inv unfolding CreateSlot
  proof -
    define r where "r = reg t"
    define slot where "slot = \<lparr>ev_id = eventCounter r, ev_type = ty, ev_timestamp = ts,
                       ev_absoluteTimestamp = abs, ev_fields = data,
                       ev_screenshots = None, ev_pending = True\<rparr>"
    have ex: "exec (CreateSlot ty data ts abs) t =
        t\<lparr>reg := r\<lparr>eventCounter := eventCounter r + 1,
                  eventSlots := AList.update (eventCounter r) slot (eventSlots r)\<rparr>\<rparr>"
      by (simp add: createEventSlot_def Let_def r_def slot_def)
    have k: "list_all (\<lambda>(k, e). ev_id e = k) (AList.update (eventCounter r) slot (eventSlots r))"
      using inv by (intro keyed_update) (simp_all add: session_inv_def r_def slot_def)
    have st: "flush_stopped (r\<lparr>eventCounter := eventCounter r + 1,
                  eventSlots := AList.update (eventCounter r) slot (eventSlots r)\<rparr>)"
      using inv by (simp add: session_inv_def flush_stopped_def r_def [symmetric] AList.update_conv' slot_def)
    show "session_inv (exec (CreateSlot ty data ts abs) t)"
      unfolding ex using inv k st by (simp add: session_inv_def r_def [symmetric])
  qed
next
  case (Complete eventId data)
  assume inv: "session_inv t"
  show ?thesis
  proof (cases "map_of (eventSlots (reg t)) eventId")
    case None
    then have "exec (Complete eventId data) t = t\<lparr>errors := errors t @ [SlotNotFound eventId]\<rparr>"
      by (simp add: completeEvent_begin_def)
    then show ?thesis unfolding Complete using inv by (simp add: session_inv_def)
  next
    case (Some e)
    then have ex: "exec (Complete eventId data) t = t\<lparr>inflight := inflight t @
                 [\<lparr>c_eventId = eventId, c_eventSlot = e, c_completeData = data\<rparr>]\<rparr>"
      by (simp add: completeEvent_begin_def)
    have "ev_id e = eventId"
      using inv Some by (intro keyed_lookup [of "eventSlots (reg t)"]) (simp_all add: session_inv_def)
    then show ?thesis unfolding Complete ex using inv by (simp add: session_inv_def)
  qed
next
  case (Resume k shots)
  assume inv: "session_inv t"
  show ?thesis
  proof (cases "k < length (inflight t)")
    case False
    then show ?thesis using inv unfolding Resume by simp
  next
    case True
    define c where "c = inflight t ! k"
    have cid: "ev_id (c_eventSlot c) = c_eventId c"
      using inv True by (auto simp: session_inv_def list_all_length c_def)
    define merged where "merged = (c_eventSlot c)\<lparr>ev_fields := spread (ev_fields (c_eventSlot c)) (c_completeData c),
                             ev_pending := False\<rparr>"
    define ce where "ce = (case shots of None \<Rightarrow> merged
             | Some r \<Rightarrow> merged\<lparr>ev_screenshots :=
                           Some \<lparr>s_displays = screenPaths r, s_appWindow = appWindowPath r\<rparr>\<rparr>)"
    define su where "su = (reg t)\<lparr>eventSlots := AList.update (c_eventId c) ce (eventSlots (reg t))\<rparr>"
    have ceid: "ev_id ce = c_eventId c"
      using cid by (simp add: ce_def merged_def split: option.splits)
    have fin: "completeEvent_finish (c_eventId c) (c_eventSlot c) (c_completeData c) shots (reg t)
             = finalizeCompletedEvents su"
      by (cases shots) (simp_all add: completeEvent_finish_def Let_def su_def ce_def merged_def)
    have "map ev_id (events su) = [0..maxCompletedEventId su]"
      "- 1 \<le> maxCompletedEventId su"
      "list_all (\<lambda>(k, e). ev_id e = k) (eventSlots su)"
      using inv ceid by (simp_all add: session_inv_def su_def keyed_update)
    from finalize_inv [OF this]
    have regok: "map ev_id (events (finalizeCompletedEvents su)) = [0..maxCompletedEventId (finalizeCompletedEvents su)]
       \<and> - 1 \<le> maxCompletedEventId (finalizeCompletedEvents su)
       \<and> flush_stopped (finalizeCompletedEvents su)
       \<and> list_all (\<lambda>(k, e). ev_id e = k) (eventSlots (finalizeCompletedEvents su))" .
    have infl: "list_all (\<lambda>c. ev_id (c_eventSlot c) = c_eventId c) (drop_nth k (inflight t))"
      using inv set_drop_nth [of k "inflight t"] by (auto simp: session_inv_def list_all_iff)
    have ex: "exec cb t = t\<lparr>reg := finalizeCompletedEvents su, inflight := drop_nth k (inflight t)\<rparr>"
      unfolding Resume using True by (simp add: Let_def c_def [symmetric] fin)
    show ?thesis unfolding ex using regok infl by (simp add: session_inv_def)
  qed
qed

lemma session_inv_run: "session_inv t \<Longrightarrow> session_inv (run cbs t)"
  unfolding run_def by (induction cbs arbitrary: t) (simp_all add: session_inv_exec)

lemma session_inv_start: "session_inv session_start"
  by (simp add: session_inv_def session_start_def flush_stopped_def)

lemma set_update_subset: "set (AList.update k v xs) \<subseteq> insert (k, v) (set xs)"
  by (induction xs) auto

lemma finalize_bounds:
  assumes m: "maxCompletedEventId s < eventCounter s"
    and ks: "list_all (\<lambda>(k, e). k < eventCounter s) (eventSlots s)"
    and ps: "list_all (\<lambda>(k, e). ev_pending e \<longrightarrow> maxCompletedEventId s < k) (eventSlots s)"
  shows "maxCompletedEventId (finalizeCompletedEvents s) < eventCounter (finalizeCompletedEvents s)
       \<and> eventCounter (finalizeCompletedEvents s) = eventCounter s
       \<and> list_all (\<lambda>(k, e). k < eventCounter s) (eventSlots (finalizeCompletedEvents s))
       \<and> list_all (\<lambda>(k, e). ev_pending e \<longrightarrow> maxCompletedEventId (finalizeCompletedEvents s) < k)
            (eventSlots (finalizeCompletedEvents s))"
proof -
  define n where "n = maxCompletedEventId s + 1"
  define s' where "s' = finalize_loop n s"
  define hi where "hi = maxCompletedEventId s'"
  have fin: "finalizeCompletedEvents s = s'"
    by (simp add: finalizeCompletedEvents_def s'_def n_def)
  have mm: "maxCompletedEventId s = n - 1" by (simp add: n_def)
  note ch = finalize_loop_char [OF mm, unfolded Let_def, folded s'_def, folded hi_def]
  from ch have a: "n - 1 \<le> hi" by blast
  from ch have b: "eventCounter s' = eventCounter s" by blast
  from ch have d: "\<forall>i. map_of (eventSlots s') i = (if n \<le> i \<and> i \<le> hi then None else map_of (eventSlots s) i)" by blast
  from ch have e: "\<forall>i\<in>{n..hi}. \<exists>e. map_of (eventSlots s) i = Some e \<and> \<not> ev_pending e" by blast
  have sub: "set (eventSlots s') \<subseteq> set (eventSlots s)"
    unfolding s'_def by (rule finalize_loop_slots_subset)
  have hi_lt: "hi < eventCounter s"
  proof (cases "n \<le> hi")
    case True
    then have "hi \<in> {n..hi}" by simp
    with e have "\<exists>e0. map_of (eventSlots s) hi = Some e0 \<and> \<not> ev_pending e0" by (rule bspec)
    then obtain e0 where "map_of (eventSlots s) hi = Some e0" by blast
    then have "(hi, e0) \<in> set (eventSlots s)" by (rule map_of_SomeD)
    then show ?thesis using ks by (auto simp: list_all_iff)
  next
    case False
    then have "hi = n - 1" using a by simp
    then show ?thesis using m by (simp add: n_def)
  qed
  have ks': "list_all (\<lambda>(k, e). k < eventCounter s) (eventSlots s')"
    using ks sub by (auto simp: list_all_iff)
  have ps': "list_all (\<lambda>(k, e). ev_pending e \<longrightarrow> hi < k) (eventSlots s')"
    unfolding list_all_iff
  proof (rule ballI, clarify)
    fix k e0 assume mem: "(k, e0) \<in> set (eventSlots s')" and pend: "ev_pending e0"
    from mem sub have "(k, e0) \<in> set (eventSlots s)" by blast
    with ps pend have "maxCompletedEventId s < k" by (auto simp: list_all_iff)
    then have nk: "n \<le> k" by (simp add: n_def)
    from mem have "k \<in> fst ` set (eventSlots s')" by force
    then have "map_of (eventSlots s') k \<noteq> None" by (simp add: map_of_eq_None_iff)
    with d have "\<not> (n \<le> k \<and> k \<le> hi)" by auto
    with nk show "hi < k" by simp
  qed
  show ?thesis unfolding fin using hi_lt b ks' ps' by (simp add: hi_def)
qed

lemma session_bounds_exec: "session_bounds t \<Longrightarrow> session_bounds (exec cb t)"
proof (cases cb)
  case (CreateSlot ty data ts abs)
  assume inv: "session_bounds t"
  define r where "r = reg t"
  define slot where "slot = \<lparr>ev_id = eventCounter r, ev_type = ty, ev_timestamp = ts,
                       ev_absoluteTimestamp = abs, ev_fields = data,
                       ev_screenshots = None, ev_pending = True\<rparr>"
  have ex: "exec (CreateSlot ty data ts abs) t =
        t\<lparr>reg := r\<lparr>eventCounter := eventCounter r + 1,
                  eventSlots := AList.update (eventCounter r) slot (eventSlots r)\<rparr>\<rparr>"
    by (simp add: createEventSlot_def Let_def r_def slot_def)
  have sub: "set (AList.update (eventCounter r) slot (eventSlots r)) \<subseteq> insert (eventCounter r, slot) (set (eventSlots r))"
    by (rule set_update_subset)
  have a: "list_all (\<lambda>(k, e). k < eventCounter r + 1) (AList.update (eventCounter r) slot (eventSlots r))"
    using inv sub by (fastforce simp: session_bounds_def list_all_iff r_def [symmetric])
  have b: "list_all (\<lambda>(k, e). ev_pending e \<longrightarrow> maxCompletedEventId r < k) (AList.update (eventCounter r) slot (eventSlots r))"
    using inv sub by (fastforce simp: session_bounds_def list_all_iff r_def [symmetric])
  have c: "list_all (\<lambda>c. c_eventId c < eventCounter r + 1) (inflight t)"
    using inv by (fastforce simp: session_bounds_def list_all_iff r_def [symmetric])
  show ?thesis unfolding CreateSlot ex using inv a b c
    by (simp add: session_bounds_def r_def [symmetric])
next
  case (Complete eventId data)
  assume inv: "session_bounds t"
  show ?thesis
  proof (cases "map_of (eventSlots (reg t)) eventId")
    case None
    then have "exec (Complete eventId data) t = t\<lparr>errors := errors t @ [SlotNotFound eventId]\<rparr>"
      by (simp add: completeEvent_begin_def)
    then show ?thesis unfolding Complete using inv by (simp add: session_bounds_def)
  next
    case (Some e)
    then have ex: "exec (Complete eventId data) t = t\<lparr>inflight := inflight t @
                 [\<lparr>c_eventId = eventId, c_eventSlot = e, c_completeData = data\<rparr>]\<rparr>"
      by (simp add: completeEvent_begin_def)
    from Some have "(eventId, e) \<in> set (eventSlots (reg t))" by (rule map_of_SomeD)
    then have "eventId < eventCounter (reg t)"
      using inv by (auto simp: session_bounds_def list_all_iff)
    then show ?thesis unfolding Complete ex using inv by (simp add: session_bounds_def)
  qed
next
  case (Resume k shots)
  assume inv: "session_bounds t"
  show ?thesis
  proof (cases "k < length (inflight t)")
    case False
    then show ?thesis using inv unfolding Resume by simp
  next
    case True
    define c where "c = inflight t ! k"
    have cid: "c_eventId c < eventCounter (reg t)"
      using inv True by (auto simp: session_bounds_def list_all_length c_def)
    define merged where "merged = (c_eventSlot c)\<lparr>ev_fields := spread (ev_fields (c_eventSlot c)) (c_completeData c),
                             ev_pending := False\<rparr>"
    define ce where "ce = (case shots of None \<Rightarrow> merged
             | Some r \<Rightarrow> merged\<lparr>ev_screenshots :=
                           Some \<lparr>s_displays = screenPaths r, s_appWindow = appWindowPath r\<rparr>\<rparr>)"
    define su where "su = (reg t)\<lparr>eventSlots := AList.update (c_eventId c) ce (eventSlots (reg t))\<rparr>"
    have np: "\<not> ev_pending ce"
      by (simp add: ce_def merged_def split: option.splits)
    have fin: "completeEvent_finish (c_eventId c) (c_eventSlot c) (c_completeData c) shots (reg t)
             = finalizeCompletedEvents su"
      by (cases shots) (simp_all add: completeEvent_finish_def Let_def su_def ce_def merged_def)
    have sub: "set (eventSlots su) \<subseteq> insert (c_eventId c, ce) (set (eventSlots (reg t)))"
      unfolding su_def by (simp add: set_update_subset)
    have 1: "maxCompletedEventId su < eventCounter su"
      using inv by (simp add: session_bounds_def su_def)
    have 2: "list_all (\<lambda>(k, e). k < eventCounter su) (eventSlots su)"
      using inv sub cid by (fastforce simp: session_bounds_def list_all_iff su_def)
    have 3: "list_all (\<lambda>(k, e). ev_pending e \<longrightarrow> maxCompletedEventId su < k) (eventSlots su)"
      using inv sub np by (fastforce simp: session_bounds_def list_all_iff su_def)
    note fb = finalize_bounds [OF 1 2 3]
    have cnt: "eventCounter su = eventCounter (reg t)" by (simp add: su_def)
    have infl: "list_all (\<lambda>c. c_eventId c < eventCounter (reg t)) (drop_nth k (inflight t))"
      using inv set_drop_nth [of k "inflight t"] by (auto simp: session_bounds_def list_all_iff)
    have ex: "exec cb t = t\<lparr>reg := finalizeCompletedEvents su, inflight := drop_nth k (inflight t)\<rparr>"
      unfolding Resume using True by (simp add: Let_def c_def [symmetric] fin)
    show ?thesis unfolding ex using fb infl cnt by (simp add: session_bounds_def)
  qed
qed

lemma finalize_stopped: "flush_stopped s \<Longrightarrow> finalizeCompletedEvents s = s"
  by (auto simp: flush_stopped_def finalizeCompletedEvents_def
      finalize_loop.simps [of "maxCompletedEventId s + 1" s] split: option.splits)

lemma already_completed_finalize:
  assumes "already_completed s eventId"
  shows "already_completed (finalizeCompletedEvents s) eventId"
proof -
  define n where "n = maxCompletedEventId s + 1"
  define s' where "s' = finalize_loop n s"
  define hi where "hi = maxCompletedEventId s'"
  have fin: "finalizeCompletedEvents s = s'"
    by (simp add: finalizeCompletedEvents_def s'_def n_def)
  have mm: "maxCompletedEventId s = n - 1" by (simp add: n_def)
  note ch = finalize_loop_char [OF mm, unfolded Let_def, folded s'_def, folded hi_def]
  from ch have a: "n - 1 \<le> hi" by blast
  from ch have d: "\<forall>i. map_of (eventSlots s') i = (if n \<le> i \<and> i \<le> hi then None else map_of (eventSlots s) i)" by blast
  show ?thesis
  proof (cases "eventId \<le> hi")
    case True
    then show ?thesis unfolding fin by (simp add: already_completed_def hi_def)
  next
    case False
    then have "\<not> eventId \<le> maxCompletedEventId s" using a by (simp add: n_def)
    moreover from False d have "map_of (eventSlots s') eventId = map_of (eventSlots s) eventId"
      by simp
    ultimately show ?thesis using assms unfolding fin by (simp add: already_completed_def)
  qed
qed

lemma resume_already_completed_log:
  assumes st: "flush_stopped (reg t)"
    and k: "k < length (inflight t)"
    and ac: "already_completed (reg t) (c_eventId (inflight t ! k))"
  shows "events (reg (exec (Resume k shots) t)) = events (reg t)"
proof -
  define c where "c = inflight t ! k"
  define merged where "merged = (c_eventSlot c)\<lparr>ev_fields := spread (ev_fields (c_eventSlot c)) (c_completeData c),
                           ev_pending := False\<rparr>"
  define ce where "ce = (case shots of None \<Rightarrow> merged
           | Some r \<Rightarrow> merged\<lparr>ev_screenshots :=
                         Some \<lparr>s_displays = screenPaths r, s_appWindow = appWindowPath r\<rparr>\<rparr>)"
  define su where "su = (reg t)\<lparr>eventSlots := AList.update (c_eventId c) ce (eventSlots (reg t))\<rparr>"
  have fin: "completeEvent_finish (c_eventId c) (c_eventSlot c) (c_completeData c) shots (reg t)
           = finalizeCompletedEvents su"
    by (cases shots) (simp_all add: completeEvent_finish_def Let_def su_def ce_def merged_def)
  have ne: "c_eventId c \<noteq> maxCompletedEventId (reg t) + 1"
    using ac st by (auto simp: already_completed_def flush_stopped_def c_def split: option.splits)
  then have "flush_stopped su"
    using st by (simp add: flush_stopped_def su_def AList.update_conv')
  then have "finalizeCompletedEvents su = su" by (rule finalize_stopped)
  then have "events (finalizeCompletedEvents su) = events (reg t)" by (simp add: su_def)
  then show ?thesis using k by (simp add: Let_def c_def [symmetric] fin)
qed

lemma already_completed_exec:
  assumes b: "session_bounds t" and ac: "already_completed (reg t) eventId"
  shows "already_completed (reg (exec cb t)) eventId"
proof (cases cb)
  case (CreateSlot ty data ts abs)
  define r where "r = reg t"
  define slot where "slot = \<lparr>ev_id = eventCounter r, ev_type = ty, ev_timestamp = ts,
                       ev_absoluteTimestamp = abs, ev_fields = data,
                       ev_screenshots = None, ev_pending = True\<rparr>"
  have ex: "reg (exec (CreateSlot ty data ts abs) t) =
        r\<lparr>eventCounter := eventCounter r + 1,
                  eventSlots := AList.update (eventCounter r) slot (eventSlots r)\<rparr>"
    by (simp add: createEventSlot_def Let_def r_def slot_def)
  show ?thesis
  proof (cases "eventId \<le> maxCompletedEventId r")
    case True
    then show ?thesis unfolding CreateSlot ex by (simp add: already_completed_def)
  next
    case False
    with ac obtain e where e: "map_of (eventSlots r) eventId = Some e" "\<not> ev_pending e"
      by (auto simp: already_completed_def r_def split: option.splits)
    from e(1) have "(eventId, e) \<in> set (eventSlots r)" by (rule map_of_SomeD)
    then have "eventId < eventCounter r"
      using b by (auto simp: session_bounds_def list_all_iff r_def)
    then show ?thesis unfolding CreateSlot ex using e
      by (simp add: already_completed_def AList.update_conv')
  qed
next
  case (Complete eventId' data)
  have "reg (exec (Complete eventId' data) t) = reg t"
    by (simp add: completeEvent_begin_def split: option.splits sum.splits)
  then show ?thesis unfolding Complete using ac by simp
next
  case (Resume k shots)
  show ?thesis
  proof (cases "k < length (inflight t)")
    case False
    then show ?thesis using ac unfolding Resume by simp
  next
    case True
    define c where "c = inflight t ! k"
    define merged where "merged = (c_eventSlot c)\<lparr>ev_fields := spread (ev_fields (c_eventSlot c)) (c_completeData c),
                             ev_pending := False\<rparr>"
    define ce where "ce = (case shots of None \<Rightarrow> merged
             | Some r \<Rightarrow> merged\<lparr>ev_screenshots :=
                           Some \<lparr>s_displays = screenPaths r, s_appWindow = appWindowPath r\<rparr>\<rparr>)"
    define su where "su = (reg t)\<lparr>eventSlots := AList.update (c_eventId c) ce (eventSlots (reg t))\<rparr>"
    have np: "\<not> ev_pending ce"
      by (simp add: ce_def merged_def split: option.splits)
    have fin: "completeEvent_finish (c_eventId c) (c_eventSlot c) (c_completeData c) shots (reg t)
             = finalizeCompletedEvents su"
      by (cases shots) (simp_all add: completeEvent_finish_def Let_def su_def ce_def merged_def)
    have "already_completed su eventId"
      using ac np by (auto simp: already_completed_def su_def AList.update_conv' split: option.splits)
    then have "already_completed (finalizeCompletedEvents su) eventId"
      by (rule already_completed_finalize)
    then show ?thesis unfolding Resume using True by (simp add: Let_def c_def [symmetric] fin)
  qed
qed

lemma session_bounds_run: "session_bounds t \<Longrightarrow> session_bounds (run cbs t)"
  unfolding run_def by (induction cbs arbitrary: t) (simp_all add: session_bounds_exec)

lemma session_bounds_start: "session_bounds session_start"
  by (simp add: session_bounds_def session_start_def)

lemma already_completed_run:
  "session_bounds t \<Longrightarrow> already_completed (reg t) eventId \<Longrightarrow>
   already_completed (reg (run cbs t)) eventId"
  unfolding run_def
  by (induction cbs arbitrary: t) (simp_all add: session_bounds_exec already_completed_exec)

subsection \<open>Evaluation of concrete sessions\<close>

lemmas eval_simps = run_def createEventSlot_def completeEvent_begin_def completeEvent_finish_def
  finalizeCompletedEvents_def finalize_loop.simps session_start_def Let_def drop_nth_def
  delete_pending_def spread_def flush_stopped_def

text \<open>A session starts in the state \<^verbatim>\<open>startRecording\<close> leaves.\<close>

lemma session_start_is_startRecording: "reg session_start = startRecording_slots r"
  by (simp add: session_start_def startRecording_slots_def clearEventSlots_def)

subsection \<open>Ordering invariant\<close>

text \<open>
  Claim C1. For every sequence of slot creations and completions of a session, in
  whatever order the completions arrive, the ids of the flushed log are exactly
  \<open>0, \<dots>, maxCompletedEventId\<close> in ascending order, and the slot after the high-water
  mark is missing or pending. One call of \<^verbatim>\<open>finalizeCompletedEvents\<close>, in any state
  \<open>r0\<close>, appends exactly the slots \<open>lo, \<dots>, hi\<close> that follow the old high-water
  mark, in ascending order; each of them was stored with \<^verbatim>\<open>_pending: false\<close>, and the
  loop stops at \<open>hi + 1\<close>, the first id that is missing or pending.
\<close>

theorem flushed_log_is_contiguous_run:
  "(let r = reg (run cbs session_start)
    in map ev_id (events r) = [0..maxCompletedEventId r] \<and> flush_stopped r)
   \<and> (let r' = finalizeCompletedEvents r0;
           lo = maxCompletedEventId r0 + 1;
           hi = maxCompletedEventId r'
       in events r' =
            events r0 @ map (\<lambda>i. delete_pending (the (map_of (eventSlots r0) i))) [lo..hi]
          \<and> (\<forall>i\<in>{lo..hi}. \<exists>e. map_of (eventSlots r0) i = Some e \<and> \<not> ev_pending e)
          \<and> (case map_of (eventSlots r0) (hi + 1) of
                None \<Rightarrow> True
              | Some e \<Rightarrow> ev_pending e))"
proof -
  have "session_inv (run cbs session_start)"
    by (rule session_inv_run [OF session_inv_start])
  then have reach: "let r = reg (run cbs session_start)
    in map ev_id (events r) = [0..maxCompletedEventId r] \<and> flush_stopped r"
    by (simp add: session_inv_def Let_def)
  have mm: "maxCompletedEventId r0 = (maxCompletedEventId r0 + 1) - 1" by simp
  note ch = finalize_loop_char [OF mm, unfolded Let_def]
  have loop: "let r' = finalizeCompletedEvents r0;
           lo = maxCompletedEventId r0 + 1;
           hi = maxCompletedEventId r'
       in events r' =
            events r0 @ map (\<lambda>i. delete_pending (the (map_of (eventSlots r0) i))) [lo..hi]
          \<and> (\<forall>i\<in>{lo..hi}. \<exists>e. map_of (eventSlots r0) i = Some e \<and> \<not> ev_pending e)
          \<and> (case map_of (eventSlots r0) (hi + 1) of
                None \<Rightarrow> True
              | Some e \<Rightarrow> ev_pending e)"
    unfolding Let_def finalizeCompletedEvents_def using ch by blast
  show ?thesis using reach loop by (rule conjI)
qed

theorem flushed_log_is_contiguous_run_witness:
  "maxCompletedEventId (reg (run [CreateSlot ''click'' [] 0 0, CreateSlot ''type'' [] 1 1,
        Complete 1 [], Complete 0 [], Resume 0 None, Resume 0 None] session_start)) = 1
   \<and> map ev_id (events (reg (run [CreateSlot ''click'' [] 0 0, CreateSlot ''type'' [] 1 1,
        Complete 1 [], Complete 0 [], Resume 0 None, Resume 0 None] session_start))) = [0, 1]
   \<and> map ev_id (events (finalizeCompletedEvents
        \<lparr>eventCounter = 3, eventSlots = [(0, ex_slot 0 False), (1, ex_slot 1 False), (2, ex_slot 2 True)],
         maxCompletedEventId = - 1, events = []\<rparr>)) = [0, 1]"
  using flushed_log_is_contiguous_run
    [of "[CreateSlot ''click'' [] 0 0, CreateSlot ''type'' [] 1 1,
        Complete 1 [], Complete 0 [], Resume 0 None, Resume 0 None]"
        "\<lparr>eventCounter = 3, eventSlots = [(0, ex_slot 0 False), (1, ex_slot 1 False), (2, ex_slot 2 True)],
         maxCompletedEventId = - 1, events = []\<rparr>"]
  by (simp add: eval_simps ex_slot_def upto.simps)

subsection \<open>Completions in the order 2, 0, 1\<close>

lemma map_of_spread:
  "k \<notin> fst ` set b \<Longrightarrow> map_of (spread a b) k = map_of a k"
  unfolding spread_def
  by (induction b arbitrary: a) (auto simp: AList.update_conv')

lemma spread_Nil: "spread a [] = a"
  by (simp add: spread_def)

text \<open>
  Claim C2. Slots 0, 1, 2 are created in this order and their completions arrive in
  the order 2, 0, 1. The log is empty after the dispatch and after the completion of 2;
  after the completion of 0 it is exactly \<open>[0]\<close>; the completion of 1 flushes 1 and 2
  in that one call, and the log is \<open>[0, 1, 2]\<close>. Each flushed event has its creation-time
  type and clock readings, and every payload property that the completion data does not
  name has the value it was created with.
\<close>

theorem completions_2_0_1:
  "events (reg (run (three_dispatched ty0 p0 ts0 a0 d0 ty1 p1 ts1 a1 d1 ty2 p2 ts2 a2 d2)
                  session_start)) = []
   \<and> events (reg (run (three_dispatched ty0 p0 ts0 a0 d0 ty1 p1 ts1 a1 d1 ty2 p2 ts2 a2 d2
                        @ [Resume 2 sh2]) session_start)) = []
   \<and> events (reg (run (three_dispatched ty0 p0 ts0 a0 d0 ty1 p1 ts1 a1 d1 ty2 p2 ts2 a2 d2
                        @ [Resume 2 sh2, Resume 0 sh0]) session_start))
       = [finalized 0 ty0 ts0 a0 p0 d0 sh0]
   \<and> events (reg (run (three_dispatched ty0 p0 ts0 a0 d0 ty1 p1 ts1 a1 d1 ty2 p2 ts2 a2 d2
                        @ [Resume 2 sh2, Resume 0 sh0, Resume 0 sh1]) session_start))
       = [finalized 0 ty0 ts0 a0 p0 d0 sh0, finalized 1 ty1 ts1 a1 p1 d1 sh1,
          finalized 2 ty2 ts2 a2 p2 d2 sh2]
   \<and> (\<forall>k. k \<notin> fst ` set d0 \<longrightarrow>
          map_of (ev_fields (finalized 0 ty0 ts0 a0 p0 d0 sh0)) k = map_of p0 k)
   \<and> (\<forall>k. k \<notin> fst ` set d1 \<longrightarrow>
          map_of (ev_fields (finalized 1 ty1 ts1 a1 p1 d1 sh1)) k = map_of p1 k)
   \<and> (\<forall>k. k \<notin> fst ` set d2 \<longrightarrow>
          map_of (ev_fields (finalized 2 ty2 ts2 a2 p2 d2 sh2)) k = map_of p2 k)"
proof -
  have pre: "run (three_dispatched ty0 p0 ts0 a0 d0 ty1 p1 ts1 a1 d1 ty2 p2 ts2 a2 d2) session_start
    = \<lparr>reg = \<lparr>eventCounter = 3,
               eventSlots = [(0, \<lparr>ev_id = 0, ev_type = ty0, ev_timestamp = ts0,
                       ev_absoluteTimestamp = a0, ev_fields = p0,
                       ev_screenshots = None, ev_pending = True\<rparr>),
                             (1, \<lparr>ev_id = 1, ev_type = ty1, ev_timestamp = ts1,
                       ev_absoluteTimestamp = a1, ev_fields = p1,
                       ev_screenshots = None, ev_pending = True\<rparr>),
                             (2, \<lparr>ev_id = 2, ev_type = ty2, ev_timestamp = ts2,
                       ev_absoluteTimestamp = a2, ev_fields = p2,
                       ev_screenshots = None, ev_pending = True\<rparr>)],
               maxCompletedEventId = - 1, events = []\<rparr>,
        inflight = [\<lparr>c_eventId = 0, c_eventSlot = \<lparr>ev_id = 0, ev_type = ty0, ev_timestamp = ts0,
                       ev_absoluteTimestamp = a0, ev_fields = p0,
                       ev_screenshots = None, ev_pending = True\<rparr>, c_completeData = d0\<rparr>,
                    \<lparr>c_eventId = 1, c_eventSlot = \<lparr>ev_id = 1, ev_type = ty1, ev_timestamp = ts1,
                       ev_absoluteTimestamp = a1, ev_fields = p1,
                       ev_screenshots = None, ev_pending = True\<rparr>, c_completeData = d1\<rparr>,
                    \<lparr>c_eventId = 2, c_eventSlot = \<lparr>ev_id = 2, ev_type = ty2, ev_timestamp = ts2,
                       ev_absoluteTimestamp = a2, ev_fields = p2,
                       ev_screenshots = None, ev_pending = True\<rparr>, c_completeData = d2\<rparr>],
        errors = []\<rparr>"
    by (simp add: three_dispatched_def run_def createEventSlot_def completeEvent_begin_def
        session_start_def Let_def)
  have run_app: "\<And>xs ys t. run (xs @ ys) t = run ys (run xs t)"
    by (simp add: run_def)
  have 1: "events (reg (run (three_dispatched ty0 p0 ts0 a0 d0 ty1 p1 ts1 a1 d1 ty2 p2 ts2 a2 d2)
                  session_start)) = []"
    by (simp add: pre)
  have 2: "events (reg (run (three_dispatched ty0 p0 ts0 a0 d0 ty1 p1 ts1 a1 d1 ty2 p2 ts2 a2 d2
                        @ [Resume 2 sh2]) session_start)) = []"
    unfolding run_app pre
    by (cases sh2) (simp_all add: run_def completeEvent_finish_def finalizeCompletedEvents_def
        finalize_loop.simps Let_def drop_nth_def)
  have 3: "events (reg (run (three_dispatched ty0 p0 ts0 a0 d0 ty1 p1 ts1 a1 d1 ty2 p2 ts2 a2 d2
                        @ [Resume 2 sh2, Resume 0 sh0]) session_start))
       = [finalized 0 ty0 ts0 a0 p0 d0 sh0]"
    unfolding run_app pre
    by (cases sh2; cases sh0) (simp_all add: run_def completeEvent_finish_def finalizeCompletedEvents_def
        finalize_loop.simps Let_def drop_nth_def delete_pending_def finalized_def)
  have 4: "events (reg (run (three_dispatched ty0 p0 ts0 a0 d0 ty1 p1 ts1 a1 d1 ty2 p2 ts2 a2 d2
                        @ [Resume 2 sh2, Resume 0 sh0, Resume 0 sh1]) session_start))
       = [finalized 0 ty0 ts0 a0 p0 d0 sh0, finalized 1 ty1 ts1 a1 p1 d1 sh1,
          finalized 2 ty2 ts2 a2 p2 d2 sh2]"
    unfolding run_app pre
    by (cases sh2; cases sh0; cases sh1) (simp_all add: run_def completeEvent_finish_def finalizeCompletedEvents_def
        finalize_loop.simps Let_def drop_nth_def delete_pending_def finalized_def)
  have 5: "\<And>i ty ts a p d sh. \<forall>k. k \<notin> fst ` set d \<longrightarrow>
          map_of (ev_fields (finalized i ty ts a p d sh)) k = map_of p k"
    by (simp add: finalized_def map_of_spread)
  show ?thesis using 1 2 3 4 5 by blast
qed

theorem completions_2_0_1_witness:
  "events (reg (run (three_dispatched
       ''click'' [(''x'', JNum 10), (''y'', JNum 10), (''button'', JStr ''left'')] 1 1001
         [(''appRelative'', JObj [(''x'', JNum 4), (''y'', JNum 6), (''isInsideApp'', JBool True)])]
       ''type'' [(''keycode'', JNum 30), (''key'', JStr ''A'')] 2 2002 []
       ''click'' [(''x'', JNum 20), (''y'', JNum 20), (''button'', JStr ''left'')] 3 3003 []
       @ [Resume 2 None, Resume 0 None, Resume 0 None]) session_start))
   = [\<lparr>ev_id = 0, ev_type = ''click'', ev_timestamp = 1, ev_absoluteTimestamp = 1001,
       ev_fields = [(''x'', JNum 10), (''y'', JNum 10), (''button'', JStr ''left''),
         (''appRelative'', JObj [(''x'', JNum 4), (''y'', JNum 6), (''isInsideApp'', JBool True)])],
       ev_screenshots = None\<rparr>,
      \<lparr>ev_id = 1, ev_type = ''type'', ev_timestamp = 2, ev_absoluteTimestamp = 2002,
       ev_fields = [(''keycode'', JNum 30), (''key'', JStr ''A'')], ev_screenshots = None\<rparr>,
      \<lparr>ev_id = 2, ev_type = ''click'', ev_timestamp = 3, ev_absoluteTimestamp = 3003,
       ev_fields = [(''x'', JNum 20), (''y'', JNum 20), (''button'', JStr ''left'')],
       ev_screenshots = None\<rparr>]
   \<and> ''x'' \<notin> fst ` set [(''appRelative'', JObj [(''x'', JNum 4), (''y'', JNum 6), (''isInsideApp'', JBool True)])]
   \<and> map_of (ev_fields (finalized 0 ''click''  1 1001
         [(''x'', JNum 10), (''y'', JNum 10), (''button'', JStr ''left'')]
         [(''appRelative'', JObj [(''x'', JNum 4), (''y'', JNum 6), (''isInsideApp'', JBool True)])]
         None)) ''x'' = Some (JNum 10)"
  using completions_2_0_1 [of
       "''click''" "[(''x'', JNum 10), (''y'', JNum 10), (''button'', JStr ''left'')]" 1 1001
         "[(''appRelative'', JObj [(''x'', JNum 4), (''y'', JNum 6), (''isInsideApp'', JBool True)])]"
       "''type''" "[(''keycode'', JNum 30), (''key'', JStr ''A'')]" 2 2002 "[]"
       "''click''" "[(''x'', JNum 20), (''y'', JNum 20), (''button'', JStr ''left'')]" 3 3003 "[]"
       None None None]
  by (simp add: finalized_def spread_def)

subsection \<open>Completing a slot twice\<close>

lemma completeEvent_finish_stores:
  "completeEvent_finish eventId eventSlot completeData shots s =
     finalizeCompletedEvents
       (s\<lparr>eventSlots := AList.update eventId (completed_event eventSlot completeData shots)
                           (eventSlots s)\<rparr>)"
  by (cases shots) (simp_all add: completeEvent_finish_def completed_event_def Let_def)

lemma resume_already_completed_reg:
  assumes st: "flush_stopped (reg t)"
    and k: "k < length (inflight t)"
    and ac: "already_completed (reg t) (c_eventId (inflight t ! k))"
  shows "reg (exec (Resume k shots) t) =
           (reg t)\<lparr>eventSlots :=
                      AList.update (c_eventId (inflight t ! k))
                        (completed_event (c_eventSlot (inflight t ! k))
                           (c_completeData (inflight t ! k)) shots)
                        (eventSlots (reg t))\<rparr>"
proof -
  define c where "c = inflight t ! k"
  define su where "su = (reg t)\<lparr>eventSlots :=
      AList.update (c_eventId c) (completed_event (c_eventSlot c) (c_completeData c) shots)
        (eventSlots (reg t))\<rparr>"
  have ne: "c_eventId c \<noteq> maxCompletedEventId (reg t) + 1"
    using ac st by (auto simp: already_completed_def flush_stopped_def c_def split: option.splits)
  then have "flush_stopped su"
    using st by (simp add: flush_stopped_def su_def AList.update_conv')
  then have "finalizeCompletedEvents su = su" by (rule finalize_stopped)
  then show ?thesis
    using k by (simp add: Let_def c_def [symmetric] completeEvent_finish_stores su_def [symmetric])
qed

text \<open>
  Claim C3, as the code has it. In every state of a session the ids of the log are
  distinct: no slot is appended twice, whatever the interleaving. Once a completion of
  \<open>eventId\<close> has run (state \<open>t1\<close>), then after any further callbacks \<open>cbs2\<close>:
  a new \<^verbatim>\<open>completeEvent(eventId)\<close> that finds the slot removed changes nothing but the
  reported error; one that finds the slot stored is accepted without an error and goes in
  flight with the stored slot; and every completion of \<open>eventId\<close> in flight, when it
  resumes, leaves the log and the high-water mark as they are but stores, under
  \<open>eventId\<close>, the slot it read merged with its own completion data and screenshots. So a
  second completion of a slot that is completed and not yet flushed is not a no-op: the
  entry flushed later is the one the second call stored.
\<close>

theorem second_completion_never_double_flushes:
  "let t1 = run cbs1 session_start; t2 = run cbs2 t1
   in distinct (map ev_id (events (reg t2)))
      \<and> (already_completed (reg t1) eventId \<longrightarrow>
           (\<forall>k shots. k < length (inflight t2) \<and> c_eventId (inflight t2 ! k) = eventId \<longrightarrow>
                events (reg (exec (Resume k shots) t2)) = events (reg t2)
              \<and> reg (exec (Resume k shots) t2) =
                  (reg t2)\<lparr>eventSlots :=
                     AList.update eventId
                       (completed_event (c_eventSlot (inflight t2 ! k))
                          (c_completeData (inflight t2 ! k)) shots)
                       (eventSlots (reg t2))\<rparr>)
         \<and> (map_of (eventSlots (reg t2)) eventId = None \<longrightarrow>
               exec (Complete eventId completeData) t2
                 = t2\<lparr>errors := errors t2 @ [SlotNotFound eventId]\<rparr>)
         \<and> (\<forall>e. map_of (eventSlots (reg t2)) eventId = Some e \<longrightarrow>
               exec (Complete eventId completeData) t2
                 = t2\<lparr>inflight := inflight t2 @
                        [\<lparr>c_eventId = eventId, c_eventSlot = e,
                          c_completeData = completeData\<rparr>]\<rparr>))"
proof -
  define t1 where "t1 = run cbs1 session_start"
  define t2 where "t2 = run cbs2 t1"
  have inv1: "session_inv t1" "session_bounds t1"
    unfolding t1_def
    by (rule session_inv_run [OF session_inv_start], rule session_bounds_run [OF session_bounds_start])
  have inv2: "session_inv t2"
    unfolding t2_def by (rule session_inv_run [OF inv1(1)])
  have "map ev_id (events (reg t2)) = [0..maxCompletedEventId (reg t2)]"
    using inv2 by (simp add: session_inv_def)
  then have d: "distinct (map ev_id (events (reg t2)))" by simp
  have st: "flush_stopped (reg t2)" using inv2 by (simp add: session_inv_def)
  have a: "events (reg (exec (Resume k shots) t2)) = events (reg t2)
      \<and> reg (exec (Resume k shots) t2) =
                  (reg t2)\<lparr>eventSlots :=
                     AList.update eventId
                       (completed_event (c_eventSlot (inflight t2 ! k))
                          (c_completeData (inflight t2 ! k)) shots)
                       (eventSlots (reg t2))\<rparr>"
    if ac: "already_completed (reg t1) eventId"
      and k: "k < length (inflight t2)" "c_eventId (inflight t2 ! k) = eventId" for k shots
  proof -
    have ac2: "already_completed (reg t2) (c_eventId (inflight t2 ! k))"
      unfolding t2_def k(2) [unfolded t2_def] by (rule already_completed_run [OF inv1(2) ac])
    have 1: "events (reg (exec (Resume k shots) t2)) = events (reg t2)"
      by (rule resume_already_completed_log [OF st k(1) ac2])
    have 2: "reg (exec (Resume k shots) t2) =
                  (reg t2)\<lparr>eventSlots :=
                     AList.update (c_eventId (inflight t2 ! k))
                       (completed_event (c_eventSlot (inflight t2 ! k))
                          (c_completeData (inflight t2 ! k)) shots)
                       (eventSlots (reg t2))\<rparr>"
      by (rule resume_already_completed_reg [OF st k(1) ac2])
    show ?thesis using 1 2 k(2) by simp
  qed
  have b: "exec (Complete eventId completeData) t2 = t2\<lparr>errors := errors t2 @ [SlotNotFound eventId]\<rparr>"
    if "map_of (eventSlots (reg t2)) eventId = None"
    using that by (simp add: completeEvent_begin_def)
  have c: "exec (Complete eventId completeData) t2
                 = t2\<lparr>inflight := inflight t2 @
                        [\<lparr>c_eventId = eventId, c_eventSlot = e,
                          c_completeData = completeData\<rparr>]\<rparr>"
    if "map_of (eventSlots (reg t2)) eventId = Some e" for e
    using that by (simp add: completeEvent_begin_def)
  show ?thesis
    unfolding Let_def t1_def [symmetric] t2_def [symmetric] using d a b c by blast
qed

theorem second_completion_never_double_flushes_witness:
  "already_completed (reg (run [CreateSlot ''click'' [] 0 0, CreateSlot ''type'' [] 1 1,
        Complete 1 [], Resume 0 None] session_start)) 1
   \<and> map ev_id (events (reg (run [Complete 1 [], Complete 0 [], Resume 1 None]
        (run [CreateSlot ''click'' [] 0 0, CreateSlot ''type'' [] 1 1,
              Complete 1 [], Resume 0 None] session_start)))) = [0, 1]
   \<and> map c_eventId (inflight (run [Complete 1 [], Complete 0 [], Resume 1 None]
        (run [CreateSlot ''click'' [] 0 0, CreateSlot ''type'' [] 1 1,
              Complete 1 [], Resume 0 None] session_start))) = [1]
   \<and> map ev_id (events (reg (exec (Resume 0 None) (run [Complete 1 [], Complete 0 [], Resume 1 None]
        (run [CreateSlot ''click'' [] 0 0, CreateSlot ''type'' [] 1 1,
              Complete 1 [], Resume 0 None] session_start))))) = [0, 1]
   \<and> errors (exec (Complete 1 []) (run [Complete 1 [], Complete 0 [], Resume 1 None]
        (run [CreateSlot ''click'' [] 0 0, CreateSlot ''type'' [] 1 1,
              Complete 1 [], Resume 0 None] session_start))) = [SlotNotFound 1]
   \<and> map_of (eventSlots (reg (run [CreateSlot ''click'' [] 0 0, CreateSlot ''type'' [] 1 1,
        Complete 1 [], Resume 0 None] session_start))) 1 = Some (ex_slot 1 False\<lparr>ev_type := ''type'', ev_timestamp := 1, ev_absoluteTimestamp := 1\<rparr>)
   \<and> map c_eventId (inflight (exec (Complete 1 [(''note'', JStr ''second'')])
        (run [CreateSlot ''click'' [] 0 0, CreateSlot ''type'' [] 1 1,
              Complete 1 [], Resume 0 None] session_start))) = [1]
   \<and> map (\<lambda>(k, e). (k, ev_fields e))
        (eventSlots (reg (exec (Resume 0 None)
          (run [Complete 1 [(''note'', JStr ''second'')]]
            (run [CreateSlot ''click'' [] 0 0, CreateSlot ''type'' [] 1 1,
                  Complete 1 [], Resume 0 None] session_start)))))
      = [(0, []), (1, [(''note'', JStr ''second'')])]"
  using second_completion_never_double_flushes
    [where ?cbs1.0 = "[CreateSlot ''click'' [] 0 0, CreateSlot ''type'' [] 1 1,
                         Complete 1 [], Resume 0 None]"
       and ?cbs2.0 = "[Complete 1 [], Complete 0 [], Resume 1 None]"
       and eventId = 1 and completeData = "[]"]
    second_completion_never_double_flushes
    [where ?cbs1.0 = "[CreateSlot ''click'' [] 0 0, CreateSlot ''type'' [] 1 1,
                         Complete 1 [], Resume 0 None]"
       and ?cbs2.0 = "[Complete 1 [(''note'', JStr ''second'')]]"
       and eventId = 1 and completeData = "[]"]
  by (simp add: eval_simps already_completed_def ex_slot_def)

text \<open>
  The claim as stated fails. Slots 0 and 1 are created; slot 1 is completed with one
  screenshot and a note, and stays stored because slot 0 is pending. A second
  \<^verbatim>\<open>completeEvent(1)\<close> with another note and another screenshot is accepted: no error is
  reported. When slot 0 completes, the entry flushed for slot 1 carries the note and the
  screenshot of the second call; without the second call it carries those of the first.
\<close>

theorem second_completion_counterexample:
  "errors (run [CreateSlot ''click'' [] 0 0, CreateSlot ''type'' [] 1 1,
                Complete 1 [(''note'', JStr ''first'')],
                Resume 0 (Some \<lparr>screenPaths = [''first.png''], appWindowPath = None\<rparr>),
                Complete 1 [(''note'', JStr ''second'')],
                Resume 0 (Some \<lparr>screenPaths = [''second.png''], appWindowPath = None\<rparr>),
                Complete 0 [], Resume 0 None] session_start) = []
   \<and> map (\<lambda>e. (ev_id e, ev_fields e, map_option s_displays (ev_screenshots e)))
        (events (reg (run [CreateSlot ''click'' [] 0 0, CreateSlot ''type'' [] 1 1,
                Complete 1 [(''note'', JStr ''first'')],
                Resume 0 (Some \<lparr>screenPaths = [''first.png''], appWindowPath = None\<rparr>),
                Complete 1 [(''note'', JStr ''second'')],
                Resume 0 (Some \<lparr>screenPaths = [''second.png''], appWindowPath = None\<rparr>),
                Complete 0 [], Resume 0 None] session_start)))
      = [(0, [], None), (1, [(''note'', JStr ''second'')], Some [''second.png''])]
   \<and> map (\<lambda>e. (ev_id e, ev_fields e, map_option s_displays (ev_screenshots e)))
        (events (reg (run [CreateSlot ''click'' [] 0 0, CreateSlot ''type'' [] 1 1,
                Complete 1 [(''note'', JStr ''first'')],
                Resume 0 (Some \<lparr>screenPaths = [''first.png''], appWindowPath = None\<rparr>),
                Complete 0 [], Resume 0 None] session_start)))
      = [(0, [], None), (1, [(''note'', JStr ''first'')], Some [''first.png''])]"
  by (simp add: eval_simps AList.update_conv')

subsection \<open>Stop with pending slots\<close>

text \<open>
  The slot part of \<^verbatim>\<open>stopRecording\<close>, by itself: it warns about exactly the slots that
  are still pending, empties the slot map and leaves the log as it is, so the events
  flushed before keep their order and contents; in a session, none of the ids warned
  about is in the log at that moment.
\<close>

theorem stop_drops_pending_slots:
  "(let (warned, r') = stopRecording_slots r0
    in events r' = events r0 \<and> eventSlots r' = [] \<and> maxCompletedEventId r' = - 1
       \<and> set warned = {k. \<exists>e. (k, e) \<in> set (eventSlots r0) \<and> ev_pending e})
   \<and> (let r = reg (run cbs session_start); (warned, r') = stopRecording_slots r
       in events r' = events r \<and> (\<forall>k\<in>set warned. k \<notin> set (map ev_id (events r'))))"
proof -
  have 1: "let (warned, r') = stopRecording_slots r0
    in events r' = events r0 \<and> eventSlots r' = [] \<and> maxCompletedEventId r' = - 1
       \<and> set warned = {k. \<exists>e. (k, e) \<in> set (eventSlots r0) \<and> ev_pending e}"
    by (force simp: stopRecording_slots_def clearEventSlots_def)
  define t where "t = run cbs session_start"
  have inv: "session_inv t" "session_bounds t"
    unfolding t_def
    by (rule session_inv_run [OF session_inv_start], rule session_bounds_run [OF session_bounds_start])
  have ids: "set (map ev_id (events (reg t))) = {0..maxCompletedEventId (reg t)}"
    using inv(1) by (simp add: session_inv_def)
  have pend: "\<And>k e. (k, e) \<in> set (eventSlots (reg t)) \<Longrightarrow> ev_pending e \<Longrightarrow> maxCompletedEventId (reg t) < k"
    using inv(2) by (auto simp: session_bounds_def list_all_iff)
  have warned: "maxCompletedEventId (reg t) < k"
    if "k \<in> set (map fst (filter (\<lambda>(eventId, event). ev_pending event) (eventSlots (reg t))))" for k
  proof -
    from that obtain e where "(k, e) \<in> set (eventSlots (reg t))" "ev_pending e" by auto
    then show ?thesis by (rule pend)
  qed
  have 2: "let r = reg t; (warned, r') = stopRecording_slots r
       in events r' = events r \<and> (\<forall>k\<in>set warned. k \<notin> set (map ev_id (events r')))"
    unfolding Let_def stopRecording_slots_def clearEventSlots_def
    using ids warned by (fastforce simp del: set_map)
  show ?thesis using 1 2 unfolding t_def by (rule conjI)
qed

theorem stop_drops_pending_slots_witness:
  "stopRecording_slots (reg (run [CreateSlot ''click'' [] 0 0, CreateSlot ''type'' [] 1 1,
        CreateSlot ''click'' [] 2 2, Complete 0 [], Complete 2 [], Resume 0 None, Resume 0 None]
        session_start))
   = ([1], \<lparr>eventCounter = 3, eventSlots = [], maxCompletedEventId = - 1,
            events = [delete_pending (ex_slot 0 False)]\<rparr>)
   \<and> events (reg (run [CreateSlot ''click'' [] 0 0, CreateSlot ''type'' [] 1 1,
        CreateSlot ''click'' [] 2 2, Complete 0 [], Complete 2 [], Resume 0 None, Resume 0 None]
        session_start)) = [delete_pending (ex_slot 0 False)]
   \<and> (1::int) \<notin> set (map ev_id [delete_pending (ex_slot 0 False)])"
  using stop_drops_pending_slots
    [of "reg (run [CreateSlot ''click'' [] 0 0, CreateSlot ''type'' [] 1 1,
        CreateSlot ''click'' [] 2 2, Complete 0 [], Complete 2 [], Resume 0 None, Resume 0 None]
        session_start)"
        "[CreateSlot ''click'' [] 0 0, CreateSlot ''type'' [] 1 1,
        CreateSlot ''click'' [] 2 2, Complete 0 [], Complete 2 [], Resume 0 None, Resume 0 None]"]
  by (simp add: eval_simps stopRecording_slots_def clearEventSlots_def ex_slot_def)

subsection \<open>Completions that resume after the stop\<close>

text \<open>
  The stop does not cancel the \<^verbatim>\<open>completeEvent\<close> calls in flight; each stores its slot
  again when it resumes. As long as none of them is for id 0 (so whenever an event had
  been flushed before the stop), the log stays as the stop left it.
\<close>

lemma resume_without_slot_0:
  assumes "map_of (eventSlots (reg t)) 0 = None" "maxCompletedEventId (reg t) = - 1"
    and "list_all (\<lambda>c. c_eventId c \<noteq> 0) (inflight t)"
  shows "events (reg (exec (Resume k shots) t)) = events (reg t)
       \<and> map_of (eventSlots (reg (exec (Resume k shots) t))) 0 = None
       \<and> maxCompletedEventId (reg (exec (Resume k shots) t)) = - 1
       \<and> list_all (\<lambda>c. c_eventId c \<noteq> 0) (inflight (exec (Resume k shots) t))"
proof (cases "k < length (inflight t)")
  case False
  then show ?thesis using assms by simp
next
  case True
  define c where "c = inflight t ! k"
  define merged where "merged = (c_eventSlot c)\<lparr>ev_fields := spread (ev_fields (c_eventSlot c)) (c_completeData c),
                           ev_pending := False\<rparr>"
  define ce where "ce = (case shots of None \<Rightarrow> merged
           | Some r \<Rightarrow> merged\<lparr>ev_screenshots :=
                         Some \<lparr>s_displays = screenPaths r, s_appWindow = appWindowPath r\<rparr>\<rparr>)"
  define su where "su = (reg t)\<lparr>eventSlots := AList.update (c_eventId c) ce (eventSlots (reg t))\<rparr>"
  have fin: "completeEvent_finish (c_eventId c) (c_eventSlot c) (c_completeData c) shots (reg t)
           = finalizeCompletedEvents su"
    by (cases shots) (simp_all add: completeEvent_finish_def Let_def su_def ce_def merged_def)
  have ne: "c_eventId c \<noteq> 0"
    using assms(3) True by (simp add: list_all_length c_def)
  then have "flush_stopped su"
    using assms(1,2) by (simp add: flush_stopped_def su_def AList.update_conv')
  then have same: "finalizeCompletedEvents su = su" by (rule finalize_stopped)
  have ex: "exec (Resume k shots) t = t\<lparr>reg := su, inflight := drop_nth k (inflight t)\<rparr>"
    using True by (simp add: Let_def c_def [symmetric] fin same)
  have "list_all (\<lambda>c. c_eventId c \<noteq> 0) (drop_nth k (inflight t))"
    using assms(3) set_drop_nth [of k "inflight t"] by (auto simp: list_all_iff)
  then show ?thesis unfolding ex using assms(1,2) ne
    by (simp add: su_def AList.update_conv')
qed

lemma late_completions_stay_dropped:
  assumes "list_all (\<lambda>c. c_eventId c \<noteq> 0) (inflight t)"
  shows "events (reg (run (map (\<lambda>(k, shots). Resume k shots) rs) (stopRecording_session t)))
           = events (reg t)"
proof -
  have gen: "map_of (eventSlots (reg u)) 0 = None \<Longrightarrow> maxCompletedEventId (reg u) = - 1 \<Longrightarrow>
      list_all (\<lambda>c. c_eventId c \<noteq> 0) (inflight u) \<Longrightarrow>
      events (reg (run (map (\<lambda>(k, shots). Resume k shots) rs) u)) = events (reg u)" for u
  proof (induction rs arbitrary: u)
    case Nil
    then show ?case by (simp add: run_def)
  next
    case (Cons r rs)
    obtain k shots where r: "r = (k, shots)" by (cases r)
    note step = resume_without_slot_0 [OF Cons.prems, of k shots]
    have "events (reg (run (map (\<lambda>(k, shots). Resume k shots) rs) (exec (Resume k shots) u)))
        = events (reg (exec (Resume k shots) u))"
      using step by (intro Cons.IH) simp_all
    then show ?case using step by (simp add: run_def r del: exec.simps)
  qed
  have "events (reg (run (map (\<lambda>(k, shots). Resume k shots) rs) (stopRecording_session t)))
      = events (reg (stopRecording_session t))"
    using assms
    by (intro gen) (simp_all add: stopRecording_session_def stopRecording_slots_def clearEventSlots_def)
  then show ?thesis
    by (simp add: stopRecording_session_def stopRecording_slots_def clearEventSlots_def)
qed

text \<open>
  When slot 0 itself was pending at the stop, the log was empty, and the completion of
  slot 0 that resumes afterwards appends it: the stop has reset the high-water mark to
  \<open>-1\<close>, so the flush loop starts at id 0 again.
\<close>

lemma late_completion_of_slot_0:
  "events (reg (stopRecording_session
                  (run [CreateSlot ''click'' [] 0 0, Complete 0 []] session_start))) = []
   \<and> events (reg (exec (Resume 0 None)
                    (stopRecording_session
                       (run [CreateSlot ''click'' [] 0 0, Complete 0 []] session_start))))
       = [delete_pending (ex_slot 0 False)]"
  by (simp add: eval_simps stopRecording_session_def stopRecording_slots_def clearEventSlots_def
      ex_slot_def)

text \<open>
  Claim C9, at the failing input. Three input events are dispatched at the start of a
  session and the stop runs before any of their completions resumes. The stop warns
  about the slots 0, 1 and 2 and clears them, and the log is empty. The three
  \<^verbatim>\<open>completeEvent\<close> calls are still in flight; when they resume, in their order, each
  stores its slot again and the flush loop appends it: the log ends as \<open>[0, 1, 2]\<close>,
  the three slots the stop had warned about and dropped.
\<close>

theorem pending_slots_flushed_after_stop:
  "fst (stopRecording_slots (reg (run (three_dispatched ''click'' [] 1 1001 []
                                         ''type'' [] 2 2002 [] ''click'' [] 3 3003 [])
                                    session_start))) = [0, 1, 2]
   \<and> reg (stopRecording_session (run (three_dispatched ''click'' [] 1 1001 []
                                         ''type'' [] 2 2002 [] ''click'' [] 3 3003 [])
                                    session_start))
       = \<lparr>eventCounter = 3, eventSlots = [], maxCompletedEventId = - 1, events = []\<rparr>
   \<and> map ev_id (events (reg (run [Resume 0 None, Resume 0 None, Resume 0 None]
          (stopRecording_session (run (three_dispatched ''click'' [] 1 1001 []
                                         ''type'' [] 2 2002 [] ''click'' [] 3 3003 [])
                                    session_start))))) = [0, 1, 2]"
  by (simp add: eval_simps three_dispatched_def stopRecording_session_def stopRecording_slots_def
      clearEventSlots_def)

section \<open>The bounds cache\<close>

subsection \<open>Single flight\<close>

lemma bounds_run_append: "bounds_run (xs @ ys) t = bounds_run ys (bounds_run xs t)"
  by (simp add: bounds_run_def)

lemma begin_cases:
  "updateCachedAppBounds_begin now s = (Return (cachedAppBounds s), s)
   \<or> (\<not> boundsUpdateInProgress s
       \<and> updateCachedAppBounds_begin now s = (AwaitWindow now, s\<lparr>boundsUpdateInProgress := True\<rparr>))"
  by (simp add: updateCachedAppBounds_begin_def)

lemma get_cases:
  "getCachedAppBounds_begin now now' s = (Return (cachedAppBounds s), s)
   \<or> (\<not> boundsUpdateInProgress s
       \<and> getCachedAppBounds_begin now now' s = (AwaitWindow now', s\<lparr>boundsUpdateInProgress := True\<rparr>))"
  using begin_cases [of now' s] by (simp add: getCachedAppBounds_begin_def)

lemma single_flight_begin:
  assumes inv: "single_flight t"
    and out: "out = (Return (cachedAppBounds (cache t)), cache t)
       \<or> (\<not> boundsUpdateInProgress (cache t)
           \<and> out = (AwaitWindow n, (cache t)\<lparr>boundsUpdateInProgress := True\<rparr>))"
  shows "single_flight ((deliver (calls t) out t)\<lparr>calls := Suc (calls t)\<rparr>)"
  using out
proof
  assume "out = (Return (cachedAppBounds (cache t)), cache t)"
  then show ?thesis using inv by (simp add: deliver_def single_flight_def)
next
  assume a: "\<not> boundsUpdateInProgress (cache t)
           \<and> out = (AwaitWindow n, (cache t)\<lparr>boundsUpdateInProgress := True\<rparr>)"
  then have "suspended t = []" using inv by (simp add: single_flight_def)
  then show ?thesis using a by (simp add: deliver_def single_flight_def)
qed

lemma single_flight_suspended:
  assumes inv: "single_flight t" and j: "j < length (suspended t)"
  shows "j = 0" "suspended t = [suspended t ! 0]" "boundsUpdateInProgress (cache t)"
    "drop_nth j (suspended t) = []"
proof -
  from inv j have len: "length (suspended t) = 1" by (simp add: single_flight_def)
  with j show "j = 0" by simp
  from len show s: "suspended t = [suspended t ! 0]"
    by (cases "suspended t") simp_all
  from inv len show "boundsUpdateInProgress (cache t)"
    by (auto simp: single_flight_def)
  from len \<open>j = 0\<close> show "drop_nth j (suspended t) = []"
    by (cases "suspended t") (simp_all add: drop_nth_def)
qed

lemma single_flight_exec: "single_flight t \<Longrightarrow> single_flight (bounds_exec cb t)"
proof (cases cb)
  case (GetBounds now now')
  assume inv: "single_flight t"
  show ?thesis unfolding GetBounds bounds_exec.simps
    by (rule single_flight_begin [OF inv get_cases])
next
  case (UpdateBounds now)
  assume inv: "single_flight t"
  show ?thesis unfolding UpdateBounds bounds_exec.simps
    by (rule single_flight_begin [OF inv begin_cases])
next
  case (WindowSettles j res)
  assume inv: "single_flight t"
  show ?thesis
  proof (cases "j < length (suspended t)")
    case False
    then show ?thesis unfolding WindowSettles using inv by simp
  next
    case True
    note s = single_flight_suspended [OF inv True]
    obtain caller step where cs: "suspended t ! j = (caller, step)" by (cases "suspended t ! j")
    show ?thesis
    proof (cases step)
      case (AwaitWindow now)
      define t0 where "t0 = t\<lparr>suspended := []\<rparr>"
      have ex: "bounds_exec cb t = deliver caller (updateCachedAppBounds_window now res (cache t)) t0"
        unfolding WindowSettles using True cs AwaitWindow s(4) by (simp add: t0_def)
      show ?thesis unfolding ex
        by (cases res; cases "case res of Resolved x \<Rightarrow> x")
           (auto simp: updateCachedAppBounds_window_def deliver_def single_flight_def t0_def
                  s(3) split: option.splits)
    qed (use inv True cs in \<open>simp_all add: WindowSettles\<close>)
  qed
next
  case (BoundsSettles j res)
  assume inv: "single_flight t"
  show ?thesis
  proof (cases "j < length (suspended t)")
    case False
    then show ?thesis unfolding BoundsSettles using inv by simp
  next
    case True
    note s = single_flight_suspended [OF inv True]
    obtain caller step where cs: "suspended t ! j = (caller, step)" by (cases "suspended t ! j")
    show ?thesis
    proof (cases step)
      case (AwaitBounds now appWindow)
      have ex: "bounds_exec cb t =
          (let out = updateCachedAppBounds_bounds now appWindow res (cache t)
           in t\<lparr>cache := snd out, suspended := [], returned := returned t @ [(caller, fst out)]\<rparr>)"
        unfolding BoundsSettles using True cs AwaitBounds s(4) by simp
      show ?thesis unfolding ex
        by (cases res; cases "case res of Resolved x \<Rightarrow> x")
           (simp_all add: updateCachedAppBounds_bounds_def single_flight_def Let_def)
    qed (use inv True cs in \<open>simp_all add: BoundsSettles\<close>)
  qed
next
  case ClearCache
  assume "single_flight t"
  then show ?thesis unfolding ClearCache by (simp add: single_flight_def clearBoundsCache_def)
qed

lemma single_flight_run: "single_flight t \<Longrightarrow> single_flight (bounds_run cbs t)"
  unfolding bounds_run_def by (induction cbs arbitrary: t) (simp_all add: single_flight_exec)

lemma single_flight_idle: "single_flight bounds_idle"
  by (simp add: single_flight_def bounds_idle_def)

lemma get_while_in_flight:
  assumes "boundsUpdateInProgress (cache t)"
  shows "bounds_exec (GetBounds now now') t =
           t\<lparr>returned := returned t @ [(calls t, cachedAppBounds (cache t))],
             calls := Suc (calls t)\<rparr>"
proof -
  have "getCachedAppBounds_begin now now' (cache t) = (Return (cachedAppBounds (cache t)), cache t)"
    using assms by (simp add: getCachedAppBounds_begin_def updateCachedAppBounds_begin_def)
  then show ?thesis by (simp add: deliver_def)
qed

lemma concurrent_gets_in_flight:
  assumes "boundsUpdateInProgress (cache t)" "cachedAppBounds (cache t) = None"
  shows "bounds_run (map (\<lambda>(n, n'). GetBounds n n') nows) t =
           t\<lparr>returned := returned t @ map (\<lambda>i. (i, None)) [calls t..<calls t + length nows],
             calls := calls t + length nows\<rparr>"
  using assms
proof (induction nows arbitrary: t)
  case Nil
  then show ?case by (simp add: bounds_run_def)
next
  case (Cons p nows)
  obtain n n' where p: "p = (n, n')" by (cases p)
  define t' where "t' = t\<lparr>returned := returned t @ [(calls t, None)], calls := Suc (calls t)\<rparr>"
  have step: "bounds_exec (GetBounds n n') t = t'"
    using get_while_in_flight [OF Cons.prems(1)] Cons.prems(2) by (simp add: t'_def)
  have "bounds_run (map (\<lambda>(n, n'). GetBounds n n') (p # nows)) t
      = bounds_run (map (\<lambda>(n, n'). GetBounds n n') nows) t'"
    by (simp add: bounds_run_def p step del: bounds_exec.simps)
  also have "\<dots> = t'\<lparr>returned := returned t' @ map (\<lambda>i. (i, None)) [calls t'..<calls t' + length nows],
             calls := calls t' + length nows\<rparr>"
    using Cons.prems by (intro Cons.IH) (simp_all add: t'_def)
  also have "\<dots> = t\<lparr>returned := returned t @ map (\<lambda>i. (i, None)) [calls t..<calls t + length (p # nows)],
             calls := calls t + length (p # nows)\<rparr>"
  proof -
    have "[calls t..<Suc (calls t + length nows)] = calls t # [Suc (calls t)..<Suc (calls t + length nows)]"
      by (rule upt_conv_Cons) simp
    then show ?thesis by (simp add: t'_def del: upt_Suc)
  qed
  finally show ?case .
qed

lemma concurrent_gets_idle:
  "bounds_run (map (\<lambda>(n, n'). GetBounds n n') ((n, n') # nows)) bounds_idle =
     bounds_idle\<lparr>cache := (cache bounds_idle)\<lparr>boundsUpdateInProgress := True\<rparr>,
                 suspended := [(0, AwaitWindow n')],
                 returned := map (\<lambda>i. (i, None)) [1..<Suc (length nows)],
                 calls := Suc (length nows)\<rparr>"
proof -
  define t where "t = bounds_idle\<lparr>cache := (cache bounds_idle)\<lparr>boundsUpdateInProgress := True\<rparr>,
                 suspended := [(0, AwaitWindow n')], calls := Suc 0\<rparr>"
  have first: "bounds_exec (GetBounds n n') bounds_idle = t"
    by (simp add: t_def bounds_idle_def getCachedAppBounds_begin_def updateCachedAppBounds_begin_def
        deliver_def)
  have "bounds_run (map (\<lambda>(n, n'). GetBounds n n') ((n, n') # nows)) bounds_idle
      = bounds_run (map (\<lambda>(n, n'). GetBounds n n') nows) t"
    by (simp add: bounds_run_def first del: bounds_exec.simps)
  also have "\<dots> = t\<lparr>returned := returned t @ map (\<lambda>i. (i, None)) [calls t..<calls t + length nows],
             calls := calls t + length nows\<rparr>"
    by (rule concurrent_gets_in_flight) (simp_all add: t_def bounds_idle_def)
  finally show ?thesis by (simp add: t_def bounds_idle_def)
qed

subsection \<open>Evaluation of concrete runs\<close>

lemmas bounds_eval_simps = bounds_run_def bounds_idle_def getCachedAppBounds_begin_def
  updateCachedAppBounds_begin_def updateCachedAppBounds_window_def updateCachedAppBounds_bounds_def
  deliver_def drop_nth_def BOUNDS_CACHE_DURATION_def Let_def clearBoundsCache_def

subsection \<open>Callers during a resolution\<close>

text \<open>
  Claim C4, as the code has it. In every state of the cache system at most one
  resolution is in flight. While one is in flight, a \<^verbatim>\<open>getCachedAppBounds\<close> call
  starts no second one and does not wait for it: it returns in its first segment with
  the bounds cached at that moment, and changes nothing else. Of \<open>N\<close> calls made
  one after the other with nothing cached, only the first (caller 0) suspends on an
  underlying resolution; each of the others has returned \<^verbatim>\<open>null\<close>.
\<close>

theorem concurrent_callers_skip:
  "(let t = bounds_run cbs bounds_idle
    in length (suspended t) \<le> 1
       \<and> (suspended t \<noteq> [] \<longrightarrow>
            bounds_exec (GetBounds now now') t =
              t\<lparr>returned := returned t @ [(calls t, cachedAppBounds (cache t))],
                calls := Suc (calls t)\<rparr>))
   \<and> (let u = bounds_run (map (\<lambda>(n, n'). GetBounds n n') nows) bounds_idle
       in nows \<noteq> [] \<longrightarrow>
            map fst (suspended u) = [0]
            \<and> returned u = map (\<lambda>i. (i, None)) [1..<length nows])"
proof -
  define t where "t = bounds_run cbs bounds_idle"
  have inv: "single_flight t"
    unfolding t_def by (rule single_flight_run [OF single_flight_idle])
  then have 1: "length (suspended t) \<le> 1" by (simp add: single_flight_def)
  have 2: "bounds_exec (GetBounds now now') t =
              t\<lparr>returned := returned t @ [(calls t, cachedAppBounds (cache t))],
                calls := Suc (calls t)\<rparr>" if "suspended t \<noteq> []"
  proof -
    from inv that have "boundsUpdateInProgress (cache t)" by (simp add: single_flight_def)
    then show ?thesis by (rule get_while_in_flight)
  qed
  have 3: "let u = bounds_run (map (\<lambda>(n, n'). GetBounds n n') nows) bounds_idle
       in nows \<noteq> [] \<longrightarrow>
            map fst (suspended u) = [0]
            \<and> returned u = map (\<lambda>i. (i, None)) [1..<length nows]"
  proof (cases nows)
    case Nil
    then show ?thesis by simp
  next
    case (Cons p ps)
    obtain n n' where p: "p = (n, n')" by (cases p)
    show ?thesis unfolding Cons p concurrent_gets_idle Let_def by simp
  qed
  show ?thesis unfolding t_def [symmetric] Let_def using 1 2 3 by (simp add: Let_def)
qed

theorem concurrent_callers_skip_witness:
  "suspended (bounds_run [GetBounds 10 10] bounds_idle) = [(0, AwaitWindow 10)]
   \<and> returned (bounds_exec (GetBounds 11 11) (bounds_run [GetBounds 10 10] bounds_idle)) = [(1, None)]
   \<and> suspended (bounds_exec (GetBounds 11 11) (bounds_run [GetBounds 10 10] bounds_idle))
        = [(0, AwaitWindow 10)]
   \<and> returned (bounds_run (map (\<lambda>(n, n'). GetBounds n n') [(10, 10), (11, 11), (12, 12)]) bounds_idle)
        = [(1, None), (2, None)]"
  using concurrent_callers_skip [where cbs = "[GetBounds 10 10]" and now = 11 and now' = 11
      and nows = "[(10, 10), (11, 11), (12, 12)]"]
  by (simp add: bounds_eval_simps)

text \<open>
  The claim as stated fails: with nothing cached, a second caller has returned
  \<^verbatim>\<open>null\<close> before the resolution of the first settles, and the resolution then gives
  the first caller the bounds.
\<close>

theorem concurrent_caller_counterexample:
  "returned (bounds_run [GetBounds 10 10, GetBounds 11 11] bounds_idle) = [(1, None)]
   \<and> returned (bounds_run [GetBounds 10 10, GetBounds 11 11,
          WindowSettles 0 (Resolved (Some ex_window)),
          BoundsSettles 0 (Resolved (Some ex_bounds))] bounds_idle)
       = [(1, None), (0, Some ex_bounds)]
   \<and> (None :: app_bounds option) \<noteq> Some ex_bounds"
  by (simp add: bounds_eval_simps)

subsection \<open>Fresh cache\<close>

text \<open>
  Claim C5. When bounds are cached and their age is strictly less than 2000 ms,
  \<^verbatim>\<open>getCachedAppBounds\<close> returns them in its first segment: no underlying query is
  awaited and the cache state is unchanged.
\<close>

theorem fresh_cache_hit:
  "cachedAppBounds s = Some b \<Longrightarrow> now - lastBoundsUpdate s < 2000 \<Longrightarrow>
   getCachedAppBounds_begin now now' s = (Return (Some b), s)"
  by (simp add: getCachedAppBounds_begin_def BOUNDS_CACHE_DURATION_def)

theorem fresh_cache_hit_witness:
  "cachedAppBounds \<lparr>cachedAppBounds = Some ex_bounds, cachedAppWindow = Some ex_window,
       lastBoundsUpdate = 1000, boundsUpdateInProgress = False\<rparr> = Some ex_bounds
   \<and> (2999::int) - lastBoundsUpdate \<lparr>cachedAppBounds = Some ex_bounds, cachedAppWindow = Some ex_window,
       lastBoundsUpdate = 1000, boundsUpdateInProgress = False\<rparr> < 2000
   \<and> getCachedAppBounds_begin 2999 3000 \<lparr>cachedAppBounds = Some ex_bounds, cachedAppWindow = Some ex_window,
       lastBoundsUpdate = 1000, boundsUpdateInProgress = False\<rparr>
      = (Return (Some ex_bounds), \<lparr>cachedAppBounds = Some ex_bounds, cachedAppWindow = Some ex_window,
       lastBoundsUpdate = 1000, boundsUpdateInProgress = False\<rparr>)"
  using fresh_cache_hit [of "\<lparr>cachedAppBounds = Some ex_bounds, cachedAppWindow = Some ex_window,
       lastBoundsUpdate = 1000, boundsUpdateInProgress = False\<rparr>" ex_bounds 2999 3000]
  by simp

subsection \<open>A failed bounds query\<close>

text \<open>
  Claim C6, at the failing input. Bounds of a window are cached at time 0; at time 5000
  the cache is stale, the same window is active, and the bounds query resolves to
  \<^verbatim>\<open>null\<close>. The cache entry is preserved, but the caller is given \<^verbatim>\<open>null\<close>
  although a previous entry exists. When the query rejects instead, the \<^verbatim>\<open>catch\<close>
  block returns the stale entry.
\<close>

theorem failed_query_returns_null_despite_cache:
  "(let t = bounds_run [UpdateBounds 0, WindowSettles 0 (Resolved (Some ex_window)),
                        BoundsSettles 0 (Resolved (Some ex_bounds)),
                        GetBounds 5000 5000, WindowSettles 0 (Resolved (Some ex_window)),
                        BoundsSettles 0 (Resolved None)] bounds_idle
    in returned t = [(0, Some ex_bounds), (1, None)]
       \<and> cache t = \<lparr>cachedAppBounds = Some ex_bounds, cachedAppWindow = Some ex_window,
                     lastBoundsUpdate = 0, boundsUpdateInProgress = False\<rparr>)
   \<and> (let t = bounds_run [UpdateBounds 0, WindowSettles 0 (Resolved (Some ex_window)),
                        BoundsSettles 0 (Resolved (Some ex_bounds)),
                        GetBounds 5000 5000, WindowSettles 0 (Resolved (Some ex_window)),
                        BoundsSettles 0 Rejected] bounds_idle
       in returned t = [(0, Some ex_bounds), (1, Some ex_bounds)])"
  by (simp add: bounds_eval_simps ex_window_def)

section \<open>Coordinate translation\<close>

text \<open>
  Claim C10. With \<^verbatim>\<open>null\<close> bounds the translation returns \<^verbatim>\<open>null\<close>. With bounds
  \<open>b\<close> it returns \<open>x = dx - b.x\<close>, \<open>y = dy - b.y\<close>, and \<^verbatim>\<open>isInsideApp\<close> is true
  exactly when \<open>0 \<le> x \<le> b.width\<close> and \<open>0 \<le> y \<le> b.height\<close>.
\<close>

theorem relative_coordinates:
  "getApplicationRelativeCoordinates dx dy None = None
   \<and> (\<exists>r. getApplicationRelativeCoordinates dx dy (Some b) = Some r
          \<and> rel_x r = dx - b_x b \<and> rel_y r = dy - b_y b
          \<and> (isInsideApp r \<longleftrightarrow>
                0 \<le> rel_x r \<and> rel_x r \<le> b_width b \<and> 0 \<le> rel_y r \<and> rel_y r \<le> b_height b))"
  by (auto simp: getApplicationRelativeCoordinates_def Let_def)


section \<open>The scroll aggregator\<close>

lemma fold_accumulate_nonempty:
  "acc_events a \<noteq> [] \<Longrightarrow>
   totalVertical (fold accumulate es a) = totalVertical a + total_rotation es
   \<and> length (acc_events (fold accumulate es a)) = length (acc_events a) + length es
   \<and> acc_events (fold accumulate es a) \<noteq> []
   \<and> startTime (fold accumulate es a) = startTime a"
proof (induction es arbitrary: a)
  case Nil
  then show ?case by (simp add: total_rotation_def)
next
  case (Cons e es)
  have a1: "acc_events (accumulate e a) \<noteq> []" by (simp add: accumulate_def Let_def)
  have a2: "totalVertical (accumulate e a) = totalVertical a + wi_rotation e"
    "length (acc_events (accumulate e a)) = Suc (length (acc_events a))"
    "startTime (accumulate e a) = startTime a"
    using Cons.prems by (simp_all add: accumulate_def Let_def)
  show ?case using Cons.IH [OF a1] a2 by (simp add: total_rotation_def)
qed

lemma fold_accumulate_empty:
  assumes "acc_events a = []" "es \<noteq> []"
  shows "totalVertical (fold accumulate es a) = total_rotation es
   \<and> length (acc_events (fold accumulate es a)) = length es
   \<and> acc_events (fold accumulate es a) \<noteq> []
   \<and> startTime (fold accumulate es a) = wi_time (hd es)"
proof -
  from assms(2) obtain e es' where es: "es = e # es'" by (cases es) auto
  have a1: "acc_events (accumulate e a) \<noteq> []" by (simp add: accumulate_def Let_def)
  have a2: "totalVertical (accumulate e a) = wi_rotation e"
    "length (acc_events (accumulate e a)) = 1"
    "startTime (accumulate e a) = wi_time e"
    using assms(1) by (simp_all add: accumulate_def Let_def)
  show ?thesis unfolding es using fold_accumulate_nonempty [OF a1, of es'] a2
    by (simp add: total_rotation_def)
qed

lemma wheel_burst_accumulates:
  assumes "isRecording s"
    and "list_all (\<lambda>e. \<not> isOnOverlay (overlayBounds s) (wi_x e) (wi_y e)) es"
    and "within_debounce es"
    and "es \<noteq> []"
    and "case scrollDebounceTimer s of None \<Rightarrow> True | Some d \<Rightarrow> wi_time (hd es) < d"
  shows "wheel_burst info es s =
           s\<lparr>scrollAccumulator := fold accumulate es (scrollAccumulator s),
             scrollDebounceTimer := Some (wi_time (last es) + 300)\<rparr>"
  using assms
proof (induction es arbitrary: s)
  case Nil
  then show ?case by simp
next
  case (Cons e es)
  define s1 where "s1 = s\<lparr>scrollAccumulator := accumulate e (scrollAccumulator s),
             scrollDebounceTimer := Some (wi_time e + 300)\<rparr>"
  have tf: "timer_fires (wi_time e) si s = s" for si
    using Cons.prems(5) by (auto simp: timer_fires_def split: option.splits)
  have ow: "on_wheel e s = s1"
    using Cons.prems(1,2) by (simp add: on_wheel_def s1_def)
  have step: "wheel_burst info (e # es) s = wheel_burst info es s1"
    by (simp add: tf ow)
  show ?case
  proof (cases es)
    case Nil
    then show ?thesis unfolding step by (simp add: s1_def)
  next
    case (Cons e' es')
    have "wheel_burst info es s1 =
           s1\<lparr>scrollAccumulator := fold accumulate es (scrollAccumulator s1),
             scrollDebounceTimer := Some (wi_time (last es) + 300)\<rparr>"
      using Cons.prems Cons by (intro Cons.IH) (simp_all add: s1_def)
    then show ?thesis unfolding step using Cons by (simp add: s1_def)
  qed
qed

text \<open>
  \<^verbatim>\<open>Math.round\<close> on some values that are not integers, and on every integer amount:
  the one-decimal rounding of the code leaves an integer amount as it is.
\<close>

lemma js_round_values:
  "js_round (12 / 5) = 2 \<and> js_round (5 / 2) = 3 \<and> js_round (13 / 5) = 3
   \<and> js_round (- (5 / 2)) = - 2 \<and> js_round (- (13 / 5)) = - 3"
  by (simp add: js_round_def floor_eq_iff)

lemma js_round_of_int: "of_int (js_round (of_int z * 10)) / 10 = (of_int z :: rat)"
proof -
  have "\<lfloor>(of_int (z * 10) :: rat) + 1 / 2\<rfloor> = z * 10" by linarith
  then show ?thesis by (simp add: js_round_def)
qed

lemma below_threshold_iff: "(of_int \<bar>z\<bar> :: rat) < 1 / 2 \<longleftrightarrow> z = 0"
proof
  assume "(of_int \<bar>z\<bar> :: rat) < 1 / 2"
  then have "\<bar>z\<bar> < 1" by linarith
  then show "z = 0" by simp
next
  assume "z = 0"
  then show "(of_int \<bar>z\<bar> :: rat) < 1 / 2" by simp
qed

lemma map_of_scroll_payload:
  "map_of (scroll_payload a l) ''totalAmount'' = Some (JNum (of_int (cl_amount l)))"
  "map_of (scroll_payload a l) ''individualScrolls'' = Some (JNum (of_nat (length (acc_events a))))"
  by (simp_all add: scroll_payload_def js_round_of_int)

lemma exec_scroll_slot:
  "reg (exec (Complete i d) (exec (CreateSlot ty p ts ab) t)) = snd (createEventSlot ty p ts ab (reg t))"
  by (simp add: completeEvent_begin_def split: option.splits)

subsection \<open>A burst that nothing interrupts\<close>

text \<open>
  The scroll code is at rest and recording; \<open>N\<close> wheel samples arrive, none on the
  overlay, each less than 300 ms after the one before; the debounce timeout fires once it
  is due, and the capture resumes with the result of the bounds lookup before any other
  wheel sample is handled. During the burst no slot is created and no capture starts. If
  the rotations sum to 0 (the only integer amount below 0.5), no slot is created and the
  accumulated samples are discarded. Otherwise exactly one \<^verbatim>\<open>scroll_sequence\<close> slot is
  created, whose \<^verbatim>\<open>individualScrolls\<close> is \<open>N\<close> and whose \<^verbatim>\<open>totalAmount\<close> is the
  absolute sum of the rotations.
\<close>

lemma uninterrupted_burst_one_slot:
  assumes idle: "scroll_idle s"
    and ne: "es \<noteq> []"
    and wd: "within_debounce es"
    and novl: "list_all (\<lambda>e. \<not> isOnOverlay (overlayBounds s) (wi_x e) (wi_y e)) es"
    and due: "wi_time (last es) + 300 \<le> now"
  shows "let s1 = wheel_burst info es s;
             s2 = timer_fires now screenInfo s1;
             s3 = captureScrollSequence_bounds 0 appBounds timestamp absoluteTimestamp s2;
             total = total_rotation es
         in slots s1 = slots s \<and> capturing s1 = [] \<and> slots s2 = slots s
            \<and> (total = 0 \<longrightarrow>
                 capturing s2 = [] \<and> acc_events (scrollAccumulator s2) = [])
            \<and> (total \<noteq> 0 \<longrightarrow>
                 length (capturing s2) = 1 \<and> capturing s3 = []
                 \<and> reg (slots s3) =
                     snd (createEventSlot ''scroll_sequence''
                            (scroll_payload (scrollAccumulator s2) (hd (capturing s2)))
                            timestamp absoluteTimestamp (reg (slots s)))
                 \<and> map_of (scroll_payload (scrollAccumulator s2) (hd (capturing s2))) ''totalAmount''
                     = Some (JNum (of_int \<bar>total\<bar>))
                 \<and> map_of (scroll_payload (scrollAccumulator s2) (hd (capturing s2)))
                       ''individualScrolls''
                     = Some (JNum (of_nat (length es))))"
proof -
  define a where "a = fold accumulate es (scrollAccumulator s)"
  define s1 where "s1 = wheel_burst info es s"
  define s2 where "s2 = timer_fires now screenInfo s1"
  define s3 where "s3 = captureScrollSequence_bounds 0 appBounds timestamp absoluteTimestamp s2"
  define total where "total = total_rotation es"
  have s1: "s1 = s\<lparr>scrollAccumulator := a, scrollDebounceTimer := Some (wi_time (last es) + 300)\<rparr>"
    unfolding s1_def a_def
    using idle ne wd novl by (intro wheel_burst_accumulates) (simp_all add: scroll_idle_def)
  have acc: "totalVertical a = total" "length (acc_events a) = length es" "acc_events a \<noteq> []"
    using fold_accumulate_empty [of "scrollAccumulator s" es] idle ne
    by (simp_all add: a_def total_def scroll_idle_def)
  have c1: "slots s1 = slots s" "capturing s1 = []"
    using idle by (simp_all add: s1 scroll_idle_def)
  have s2': "s2 = captureScrollSequence_begin now screenInfo (s1\<lparr>scrollDebounceTimer := None\<rparr>)"
    using due by (simp add: s2_def timer_fires_def s1)
  have c2: "slots s2 = slots s"
    using acc c1 by (simp add: s2' captureScrollSequence_begin_def Let_def s1)
  have small: "capturing s2 = [] \<and> acc_events (scrollAccumulator s2) = []" if "total = 0"
    using that acc c1 by (simp add: s2' captureScrollSequence_begin_def Let_def s1)
  have big: "capturing s2 = [\<lparr>cl_direction = (if total > 0 then ''up'' else ''down''),
                 cl_amount = \<bar>total\<bar>, cl_duration = now - startTime a,
                 cl_screenInfo = screenInfo\<rparr>] \<and> scrollAccumulator s2 = a"
    if "total \<noteq> 0"
    using that acc c1
    by (simp add: s2' captureScrollSequence_begin_def Let_def s1 below_threshold_iff)
  have big3: "capturing s3 = []
      \<and> reg (slots s3) = snd (createEventSlot ''scroll_sequence''
                            (scroll_payload (scrollAccumulator s2) (hd (capturing s2)))
                            timestamp absoluteTimestamp (reg (slots s)))"
    if "total \<noteq> 0"
    using big [OF that] c2
    by (simp add: s3_def captureScrollSequence_bounds_def Let_def drop_nth_def exec_scroll_slot
        del: exec.simps)
  have pay: "map_of (scroll_payload (scrollAccumulator s2) (hd (capturing s2))) ''totalAmount''
                     = Some (JNum (of_int \<bar>total\<bar>))
          \<and> map_of (scroll_payload (scrollAccumulator s2) (hd (capturing s2))) ''individualScrolls''
                     = Some (JNum (of_nat (length es)))"
    if "total \<noteq> 0"
    using big [OF that] acc by (simp add: map_of_scroll_payload)
  have len: "length (capturing s2) = 1" if "total \<noteq> 0"
    using big [OF that] by simp
  show ?thesis
    unfolding Let_def s1_def [symmetric] s2_def [symmetric] s3_def [symmetric] total_def [symmetric]
    using c1 c2 small big3 pay len by blast
qed

lemmas scroll_eval_simps = scroll_start_def scroll_idle_def timer_fires_def on_wheel_def
  accumulate_def captureScrollSequence_begin_def captureScrollSequence_bounds_def
  captureScrollSequence_finish_def
  scroll_payload_def js_round_def floor_eq_iff isOnOverlay_def total_rotation_def
  getApplicationRelativeCoordinates_def createEventSlot_def completeEvent_begin_def
  session_start_def drop_nth_def Let_def

lemma uninterrupted_burst_example:
  "eventSlots (reg (slots (captureScrollSequence_bounds 0 None 1 1000
         (timer_fires 650 JNull
            (wheel_burst (\<lambda>x y. JNull)
               [\<lparr>wi_time = 0, wi_rotation = 1, wi_x = 3, wi_y = 4\<rparr>,
                \<lparr>wi_time = 100, wi_rotation = 2, wi_x = 5, wi_y = 6\<rparr>,
                \<lparr>wi_time = 350, wi_rotation = - 5, wi_x = 7, wi_y = 8\<rparr>]
               scroll_start)))))
      = [(0, \<lparr>ev_id = 0, ev_type = ''scroll_sequence'', ev_timestamp = 1,
              ev_absoluteTimestamp = 1000,
              ev_fields = [(''x'', JNum 7), (''y'', JNum 8), (''direction'', JStr ''down''),
                           (''totalAmount'', JNum 2), (''duration'', JNum 650),
                           (''individualScrolls'', JNum 3), (''screenInfo'', JNull)],
              ev_screenshots = None, ev_pending = True\<rparr>)]"
  by (simp add: scroll_eval_simps)

subsection \<open>Bursts that meet a capture in progress\<close>

text \<open>
  Claim C7, at two failing inputs, all rotations being 1 or 2.

  First input. A burst of two samples (rotations 1 and 1, at 0 and 100 ms) starts with the
  scroll code at rest; the debounce timeout fires at 400 ms and the capture awaits the
  bounds lookup; a further sample (rotation 1, at 450 ms, another position) is handled
  before the lookup resolves. The slot of the burst is created from the accumulator as it
  is after the await: \<^verbatim>\<open>totalAmount\<close> is 2, the sum read before the await, but
  \<^verbatim>\<open>individualScrolls\<close> is 3 and the position is that of the third sample.

  Second input. A burst of one sample (rotation 2) is captured, and its slot is being
  completed; the accumulator is reset only in the third segment, after that. A burst of
  two samples (rotations 1 and 1, at 500 and 600 ms) arrives meanwhile and its timeout
  fires at 900 ms: its slot has \<^verbatim>\<open>totalAmount\<close> 4 and \<^verbatim>\<open>individualScrolls\<close> 3, where the
  burst has two samples that sum to 2.
\<close>

theorem scroll_bursts_are_merged:
  "map (\<lambda>(k, e). (map_of (ev_fields e) ''totalAmount'', map_of (ev_fields e) ''individualScrolls'',
                   map_of (ev_fields e) ''x'', map_of (ev_fields e) ''y''))
     (eventSlots (reg (slots
        (captureScrollSequence_bounds 0 None 1 1000
           (wheel_burst (\<lambda>x y. JNull)
              [\<lparr>wi_time = 450, wi_rotation = 1, wi_x = 9, wi_y = 9\<rparr>]
              (timer_fires 400 JNull
                 (wheel_burst (\<lambda>x y. JNull)
                    [\<lparr>wi_time = 0, wi_rotation = 1, wi_x = 3, wi_y = 4\<rparr>,
                     \<lparr>wi_time = 100, wi_rotation = 1, wi_x = 3, wi_y = 4\<rparr>]
                    scroll_start)))))))
   = [(Some (JNum 2), Some (JNum 3), Some (JNum 9), Some (JNum 9))]
   \<and> map (\<lambda>(k, e). (map_of (ev_fields e) ''totalAmount'', map_of (ev_fields e) ''individualScrolls''))
     (eventSlots (reg (slots
        (captureScrollSequence_bounds 0 None 2 2000
           (timer_fires 900 JNull
              (wheel_burst (\<lambda>x y. JNull)
                 [\<lparr>wi_time = 500, wi_rotation = 1, wi_x = 3, wi_y = 4\<rparr>,
                  \<lparr>wi_time = 600, wi_rotation = 1, wi_x = 3, wi_y = 4\<rparr>]
                 (captureScrollSequence_bounds 0 None 1 1000
                    (timer_fires 300 JNull
                       (wheel_burst (\<lambda>x y. JNull)
                          [\<lparr>wi_time = 0, wi_rotation = 2, wi_x = 3, wi_y = 4\<rparr>]
                          scroll_start)))))))))
   = [(Some (JNum 2), Some (JNum 1)), (Some (JNum 4), Some (JNum 3))]"
  by (simp add: scroll_eval_simps AList.update_conv')

section \<open>Escalation when a recorder is stopped\<close>

lemma kill_not_SIGKILL:
  "sig \<noteq> SIGKILL \<Longrightarrow> Signal SIGKILL \<notin> set (delivered p) \<Longrightarrow>
   Signal SIGKILL \<notin> set (delivered (kill ignores sig p))"
  by (simp add: kill_def)

lemma kill_killed_or_dead: "killed (kill ignores sig p) \<or> \<not> alive (kill ignores sig p)"
  by (simp add: kill_def)

lemma no_kill_inv_begin: "no_kill_inv (stop_begin kind stdin_ok ignores now spawned)"
  by (cases kind) (simp_all add: no_kill_inv_def stop_begin_def kill_def write_quit_def spawned_def)

lemma no_kill_inv_exec: "no_kill_inv s \<Longrightarrow> no_kill_inv (stop_exec ignores cb s)"
proof (cases cb)
  case (ForceKillTimeout now)
  assume "no_kill_inv s"
  then show ?thesis unfolding ForceKillTimeout
    using kill_killed_or_dead [of ignores SIGTERM "child s"]
    by (auto simp: no_kill_inv_def kill_not_SIGKILL split: option.splits)
next
  case (FinalTimeout now)
  assume inv: "no_kill_inv s"
  show ?thesis
  proof (cases "finalTimeout s")
    case None
    then show ?thesis unfolding FinalTimeout using inv by simp
  next
    case (Some d)
    then have "killed (child s) \<or> \<not> alive (child s)" using inv by (simp add: no_kill_inv_def)
    then show ?thesis unfolding FinalTimeout using inv Some
      by (auto simp: no_kill_inv_def kill_def)
  qed
next
  case ExitEvent
  assume "no_kill_inv s"
  then show ?thesis unfolding ExitEvent by (simp add: no_kill_inv_def)
next
  case ErrorEvent
  assume "no_kill_inv s"
  then show ?thesis unfolding ErrorEvent by (simp add: no_kill_inv_def)
qed

lemma no_kill_inv_run: "no_kill_inv s \<Longrightarrow> no_kill_inv (stop_run ignores cbs s)"
  unfolding stop_run_def by (induction cbs arbitrary: s) (simp_all add: no_kill_inv_exec)

text \<open>
  Claim C8, at the failing input. Whatever the process ignores and whatever callbacks
  follow the start of the stop, no \<^verbatim>\<open>SIGKILL\<close> is ever delivered: when the final
  timeout fires, \<^verbatim>\<open>killed\<close> is already \<^verbatim>\<open>true\<close> from the earlier \<^verbatim>\<open>kill\<close> call, and
  the guard \<^verbatim>\<open>!process.killed\<close> skips the signal. For a process that ignores the graceful
  request and \<^verbatim>\<open>SIGTERM\<close>, both timeouts fire, the process still runs, and the promise
  has not resolved, with the native recorder and with FFmpeg.
\<close>

theorem kill_signal_never_sent:
  "Signal SIGKILL \<notin> set (delivered (child (stop_run ignores cbs
                              (stop_begin kind stdin_ok ignores now spawned))))
   \<and> stop_run stubborn [ForceKillTimeout 5000, FinalTimeout 8000, ExitEvent]
        (stop_begin Native True stubborn 0 spawned)
      = \<lparr>child = \<lparr>alive = True, killed = True,
                   delivered = [Signal SIGINT, Signal SIGTERM]\<rparr>,
         forceKillTimeout = None, finalTimeout = None, exitDispatched = False,
         resolved = False\<rparr>
   \<and> stop_run stubborn [ForceKillTimeout 10000, FinalTimeout 13000, ExitEvent]
        (stop_begin FFmpeg True stubborn 0 spawned)
      = \<lparr>child = \<lparr>alive = True, killed = True,
                   delivered = [QuitCommand, Signal SIGTERM]\<rparr>,
         forceKillTimeout = None, finalTimeout = None, exitDispatched = False,
         resolved = False\<rparr>"
proof -
  have "no_kill_inv (stop_run ignores cbs (stop_begin kind stdin_ok ignores now spawned))"
    by (rule no_kill_inv_run [OF no_kill_inv_begin])
  then have 1: "Signal SIGKILL \<notin> set (delivered (child (stop_run ignores cbs
                              (stop_begin kind stdin_ok ignores now spawned))))"
    by (simp add: no_kill_inv_def)
  have 2: "stop_run stubborn [ForceKillTimeout 5000, FinalTimeout 8000, ExitEvent]
        (stop_begin Native True stubborn 0 spawned)
      = \<lparr>child = \<lparr>alive = True, killed = True,
                   delivered = [Signal SIGINT, Signal SIGTERM]\<rparr>,
         forceKillTimeout = None, finalTimeout = None, exitDispatched = False,
         resolved = False\<rparr>"
    by (simp add: stop_run_def stop_begin_def kill_def survives_def stubborn_def spawned_def
        graceful_timeout_def final_timeout_def)
  have 3: "stop_run stubborn [ForceKillTimeout 10000, FinalTimeout 13000, ExitEvent]
        (stop_begin FFmpeg True stubborn 0 spawned)
      = \<lparr>child = \<lparr>alive = True, killed = True,
                   delivered = [QuitCommand, Signal SIGTERM]\<rparr>,
         forceKillTimeout = None, finalTimeout = None, exitDispatched = False,
         resolved = False\<rparr>"
    by (simp add: stop_run_def stop_begin_def kill_def write_quit_def survives_def stubborn_def
        spawned_def graceful_timeout_def final_timeout_def)
  show ?thesis using 1 2 3 by blast
qed

end
